theory Spec2Isabelle
  imports Main "HOL-Library.Word" "HOL-Library.Sublist"
begin

unbundle bit_operations_syntax

section \<open>Data model of the tree engine (src/src/engine.ts)\<close>

text \<open>
  Node ids, labels and queries are JavaScript strings; they are modelled as
  \<^typ>\<open>string\<close>, one \<^typ>\<open>char\<close> standing for one code unit.  The engine
  never looks inside an id, and looks inside a label or a query only through
  \<open>normalize\<close>, \<open>length\<close> and \<open>includes\<close>.

  A JavaScript \<open>Set\<close> is modelled as the list of its members in insertion
  order, a \<open>Map\<close> that the engine iterates (\<open>childrenMap\<close>) as the list
  of its entries in insertion order, and a \<open>Map\<close> that is only read by key
  as a partial function.  Counters are JavaScript numbers, modelled as
  \<^typ>\<open>int\<close>.  A subscribed callback is modelled by its identity (a
  natural number); calling it appends that identity to the field
  \<open>calls\<close>, the model's record of the invocations made so far.
\<close>

datatype CheckedState = Checked | Indeterminate | Unchecked

record TreeItem =
  children :: "string list option"
  label :: "string option"

type_synonym TreeDefinition = "(string \<times> TreeItem) list"

record Options =
  initialExpanded :: "string list option"
  optMinSearchChars :: "int option"
  optRootId :: "string option"

record VisibleItem =
  item_id :: string
  isExpanded :: bool
  isFolder :: bool
  level :: int

record Engine =
  allCheckedCache :: "string list"
  allCheckedCacheVersion :: int
  assignments :: "string \<rightharpoonup> bool"
  childrenMap :: "(string \<times> string list) list"
  expanded :: "string list"
  expandVersion :: int
  flatCacheVersion :: int
  flatVisibleItems :: "VisibleItem list"
  folderSet :: "string list"
  indexById :: "string \<rightharpoonup> nat"
  labelMap :: "string \<rightharpoonup> string"
  leafIds :: "string list"
  minSearchChars :: int
  normalizedLeafLabel :: "string \<rightharpoonup> string"
  normalizedQuery :: string
  observers :: "nat list"
  parentMap :: "string \<rightharpoonup> string option"
  rootId :: string
  searchActive :: bool
  searchEpoch :: int
  searchQuery :: string
  selectionVersion :: int
  stateCache :: "string \<rightharpoonup> CheckedState"
  stateCacheFiltered :: "string \<rightharpoonup> CheckedState"
  version :: int
  visibleChildrenMap :: "string \<rightharpoonup> string list"
  visibleSet :: "string list"
  calls :: "nat list"

subsection \<open>Sets and maps of the host language\<close>

text \<open>\<open>Set.prototype.add\<close>: a new member goes to the end of the iteration order.\<close>

definition set_add :: "'a \<Rightarrow> 'a list \<Rightarrow> 'a list" where
  "set_add x xs = (if x \<in> set xs then xs else xs @ [x])"

text \<open>\<open>new Set(iterable)\<close>.\<close>

definition new_Set :: "'a list \<Rightarrow> 'a list" where
  "new_Set xs = foldl (\<lambda>s x. set_add x s) [] xs"

text \<open>\<open>Map.prototype.set\<close> on an iterated map: an existing key keeps its place.\<close>

fun map_set :: "'k \<Rightarrow> 'v \<Rightarrow> ('k \<times> 'v) list \<Rightarrow> ('k \<times> 'v) list" where
  "map_set k v [] = [(k, v)]"
| "map_set k v (p # ps) = (if fst p = k then (k, v) # ps else p # map_set k v ps)"

text \<open>\<open>this.childrenMap.get(id) || []\<close>\<close>

definition childrenOf :: "Engine \<Rightarrow> string \<Rightarrow> string list" where
  "childrenOf E i = (case map_of (childrenMap E) i of None \<Rightarrow> [] | Some cs \<Rightarrow> cs)"

text \<open>\<open>this.visibleChildrenMap.get(id) || []\<close>\<close>

definition visibleChildrenOf :: "Engine \<Rightarrow> string \<Rightarrow> string list" where
  "visibleChildrenOf E i = (case visibleChildrenMap E i of None \<Rightarrow> [] | Some cs \<Rightarrow> cs)"

text \<open>
  The truthiness test \<open>while (p)\<close> on a value of type
  \<open>string | null | undefined\<close>: only a non-empty string passes.
\<close>

fun truthy :: "string option option \<Rightarrow> string option" where
  "truthy (Some (Some s)) = (if s = [] then None else Some s)"
| "truthy _ = None"

subsection \<open>Construction\<close>

definition emptyEngine :: Engine where
  "emptyEngine = \<lparr>
     allCheckedCache = [], allCheckedCacheVersion = - 1, assignments = Map.empty,
     childrenMap = [], expanded = [], expandVersion = 0, flatCacheVersion = - 1,
     flatVisibleItems = [], folderSet = [], indexById = Map.empty, labelMap = Map.empty,
     leafIds = [], minSearchChars = 3, normalizedLeafLabel = Map.empty,
     normalizedQuery = [], observers = [], parentMap = Map.empty, rootId = [],
     searchActive = False, searchEpoch = 0, searchQuery = [], selectionVersion = 0,
     stateCache = Map.empty, stateCacheFiltered = Map.empty, version = 0,
     visibleChildrenMap = Map.empty, visibleSet = [], calls = [] \<rparr>"

text \<open>One iteration of the loop over \<open>Object.entries(data)\<close>.\<close>

definition buildEntry :: "Engine \<Rightarrow> string \<times> TreeItem \<Rightarrow> Engine" where
  "buildEntry E e =
     (let i = fst e; item = snd e;
          cs = (case children item of None \<Rightarrow> [] | Some c \<Rightarrow> c)
      in E\<lparr> childrenMap := map_set i cs (childrenMap E),
            labelMap := (labelMap E)(i \<mapsto> (case label item of None \<Rightarrow> i | Some l \<Rightarrow> l)),
            folderSet := (if 0 < length cs then set_add i (folderSet E) else folderSet E),
            leafIds := (if 0 < length cs then leafIds E else leafIds E @ [i]),
            parentMap := foldl (\<lambda>m c. m(c \<mapsto> Some i)) (parentMap E) cs \<rparr>)"

text \<open>
  The constructor.  \<open>nrm\<close> stands for the static method \<open>normalize\<close>
  (canonical decomposition, removal of combining marks, lower-casing), a
  composition of library functions of the host language that is taken as a
  parameter.  The test \<open>if (opts?.minSearchChars)\<close> passes for every number
  other than zero.
\<close>

definition newEngine :: "(string \<Rightarrow> string) \<Rightarrow> TreeDefinition \<Rightarrow> Options \<Rightarrow> Engine" where
  "newEngine nrm data opts =
     (let E0 = emptyEngine\<lparr>
            rootId := (case optRootId opts of None \<Rightarrow> ''__root__'' | Some r \<Rightarrow> r),
            minSearchChars := (case optMinSearchChars opts of
                                 None \<Rightarrow> 3
                               | Some n \<Rightarrow> if n \<noteq> 0 then n else 3) \<rparr>;
          E1 = foldl buildEntry E0 data;
          E2 = (if parentMap E1 (rootId E1) = None
                then E1\<lparr> parentMap := (parentMap E1)(rootId E1 \<mapsto> None) \<rparr> else E1);
          E3 = (case initialExpanded opts of
                  None \<Rightarrow> E2
                | Some ids \<Rightarrow> E2\<lparr> expanded := foldl (\<lambda>s x. set_add x s) (expanded E2) ids \<rparr>);
          E4 = (if rootId E3 \<in> set (folderSet E3)
                then E3\<lparr> expanded := set_add (rootId E3) (expanded E3) \<rparr> else E3)
      in E4\<lparr> normalizedLeafLabel :=
               foldl (\<lambda>m leafId. m(leafId \<mapsto>
                         nrm (case labelMap E4 leafId of None \<Rightarrow> leafId | Some raw \<Rightarrow> raw)))
                     (normalizedLeafLabel E4) (leafIds E4) \<rparr>)"

subsection \<open>Notification\<close>

text \<open>\<open>for (const ob of this.observers) ob()\<close>\<close>

definition callObservers :: "Engine \<Rightarrow> Engine" where
  "callObservers E = E\<lparr> calls := calls E @ observers E \<rparr>"

definition subscribe :: "nat \<Rightarrow> Engine \<Rightarrow> Engine" where
  "subscribe cb E = E\<lparr> observers := set_add cb (observers E) \<rparr>"

definition bumpNoRecompute :: "Engine \<Rightarrow> Engine" where
  "bumpNoRecompute E =
     callObservers (E\<lparr> version := version E + 1, expandVersion := expandVersion E + 1,
                       flatCacheVersion := - 1 \<rparr>)"

definition notify :: "bool \<Rightarrow> Engine \<Rightarrow> Engine" where
  "notify silent E =
     callObservers
       (E\<lparr> selectionVersion := (if \<not> silent then selectionVersion E + 1 else selectionVersion E),
           version := version E + 1,
           stateCache := Map.empty,
           stateCacheFiltered := Map.empty,
           flatCacheVersion := - 1,
           allCheckedCacheVersion := - 1 \<rparr>)"

definition setsEqual :: "string list \<Rightarrow> string list \<Rightarrow> bool" where
  "setsEqual a b = (if length a \<noteq> length b then False else list_all (\<lambda>v. v \<in> set b) a)"

subsection \<open>Expansion state\<close>

definition collapseAll :: "Engine \<Rightarrow> Engine" where
  "collapseAll E =
     bumpNoRecompute
       (E\<lparr> expanded := (if rootId E \<in> set (folderSet E) then set_add (rootId E) [] else []) \<rparr>)"

definition expandAll :: "Engine \<Rightarrow> Engine" where
  "expandAll E =
     bumpNoRecompute (E\<lparr> expanded := foldl (\<lambda>s x. set_add x s) (expanded E) (folderSet E) \<rparr>)"

definition getExpanded :: "Engine \<Rightarrow> string list" where
  "getExpanded E = expanded E"

definition setExpanded :: "string list \<Rightarrow> Engine \<Rightarrow> Engine" where
  "setExpanded ids E =
     (let next = new_Set ids in
      if setsEqual next (expanded E) then E
      else bumpNoRecompute
             (E\<lparr> expanded := (if rootId E \<in> set (folderSet E)
                               then set_add (rootId E) next else next) \<rparr>))"

definition toggleExpanded :: "string \<Rightarrow> Engine \<Rightarrow> Engine" where
  "toggleExpanded i E =
     (if i \<notin> set (folderSet E) then E
      else let E1 = (if i \<in> set (expanded E)
                     then E\<lparr> expanded := removeAll i (expanded E) \<rparr>
                     else E\<lparr> expanded := set_add i (expanded E) \<rparr>);
               E2 = (if i = rootId E1 \<and> rootId E1 \<notin> set (expanded E1)
                     then E1\<lparr> expanded := set_add (rootId E1) (expanded E1) \<rparr> else E1)
           in bumpNoRecompute E2)"

subsection \<open>Tri-state resolution\<close>

text \<open>
  \<open>findNearestAssignment\<close>: the loop \<open>while (current)\<close> walks up
  \<open>parentMap\<close>.  The first argument bounds the number of steps to a
  parent; the result \<open>None\<close> says that the bound was reached, the result
  \<open>Some None\<close> is the source's \<open>undefined\<close>.
\<close>

fun findNearestAssignment :: "nat \<Rightarrow> Engine \<Rightarrow> string option \<Rightarrow> bool option option" where
  "findNearestAssignment n E None = Some None"
| "findNearestAssignment n E (Some c) =
     (if c = [] then Some None
      else case assignments E c of
             Some b \<Rightarrow> Some (Some b)
           | None \<Rightarrow> (case n of
                        0 \<Rightarrow> None
                      | Suc m \<Rightarrow> findNearestAssignment m E (truthy (parentMap E c))))"

definition leafState :: "bool option \<Rightarrow> CheckedState" where
  "leafState forced = (if forced = Some True then Checked else Unchecked)"

definition folderState :: "nat \<Rightarrow> nat \<Rightarrow> CheckedState" where
  "folderState checkedCount len =
     (if checkedCount = 0 then Unchecked
      else if checkedCount = len then Checked else Indeterminate)"

text \<open>
  \<open>getStateBase\<close>, memoised in \<open>stateCache\<close>.  The first argument bounds
  the depth of the recursion (and the steps of the walk to the nearest
  assignment); \<open>None\<close> says that the bound was reached.  The loop over the
  children returns \<open>None\<close> in its first component when it left early on an
  indeterminate child, and the count of checked children otherwise.
\<close>

fun getStateBase :: "nat \<Rightarrow> Engine \<Rightarrow> string \<Rightarrow> (CheckedState \<times> Engine) option"
  and countCheckedBase ::
    "nat \<Rightarrow> Engine \<Rightarrow> string list \<Rightarrow> nat \<Rightarrow> (nat option \<times> Engine) option" where
  "getStateBase 0 E i = None"
| "getStateBase (Suc n) E i =
     (case stateCache E i of
        Some st \<Rightarrow> Some (st, E)
      | None \<Rightarrow>
          if length (childrenOf E i) = 0 then
            (case findNearestAssignment n E (Some i) of
               None \<Rightarrow> None
             | Some forced \<Rightarrow>
                 Some (leafState forced,
                       E\<lparr> stateCache := (stateCache E)(i \<mapsto> leafState forced) \<rparr>))
          else
            (case countCheckedBase n E (childrenOf E i) 0 of
               None \<Rightarrow> None
             | Some (None, E') \<Rightarrow>
                 Some (Indeterminate, E'\<lparr> stateCache := (stateCache E')(i \<mapsto> Indeterminate) \<rparr>)
             | Some (Some checkedCount, E') \<Rightarrow>
                 Some (folderState checkedCount (length (childrenOf E i)),
                       E'\<lparr> stateCache := (stateCache E')
                              (i \<mapsto> folderState checkedCount (length (childrenOf E i))) \<rparr>)))"
| "countCheckedBase n E [] checkedCount = Some (Some checkedCount, E)"
| "countCheckedBase n E (c # cs) checkedCount =
     (case getStateBase n E c of
        None \<Rightarrow> None
      | Some (st, E') \<Rightarrow>
          if st = Indeterminate then Some (None, E')
          else countCheckedBase n E' cs (if st = Checked then checkedCount + 1 else checkedCount))"

text \<open>\<open>getStateFiltered\<close>: the same resolver over the children of the current view.\<close>

definition viewChildrenOf :: "Engine \<Rightarrow> string \<Rightarrow> string list" where
  "viewChildrenOf E i = (if searchActive E then visibleChildrenOf E i else childrenOf E i)"

fun getStateFiltered :: "nat \<Rightarrow> Engine \<Rightarrow> string \<Rightarrow> (CheckedState \<times> Engine) option"
  and countCheckedFiltered ::
    "nat \<Rightarrow> Engine \<Rightarrow> string list \<Rightarrow> nat \<Rightarrow> (nat option \<times> Engine) option" where
  "getStateFiltered 0 E i = None"
| "getStateFiltered (Suc n) E i =
     (case stateCacheFiltered E i of
        Some st \<Rightarrow> Some (st, E)
      | None \<Rightarrow>
          if length (viewChildrenOf E i) = 0 then
            (case findNearestAssignment n E (Some i) of
               None \<Rightarrow> None
             | Some forced \<Rightarrow>
                 Some (leafState forced,
                       E\<lparr> stateCacheFiltered := (stateCacheFiltered E)(i \<mapsto> leafState forced) \<rparr>))
          else
            (case countCheckedFiltered n E (viewChildrenOf E i) 0 of
               None \<Rightarrow> None
             | Some (None, E') \<Rightarrow>
                 Some (Indeterminate,
                       E'\<lparr> stateCacheFiltered := (stateCacheFiltered E')(i \<mapsto> Indeterminate) \<rparr>)
             | Some (Some checkedCount, E') \<Rightarrow>
                 Some (folderState checkedCount (length (viewChildrenOf E i)),
                       E'\<lparr> stateCacheFiltered := (stateCacheFiltered E')
                              (i \<mapsto> folderState checkedCount (length (viewChildrenOf E i))) \<rparr>)))"
| "countCheckedFiltered n E [] checkedCount = Some (Some checkedCount, E)"
| "countCheckedFiltered n E (c # cs) checkedCount =
     (case getStateFiltered n E c of
        None \<Rightarrow> None
      | Some (st, E') \<Rightarrow>
          if st = Indeterminate then Some (None, E')
          else countCheckedFiltered n E' cs
                 (if st = Checked then checkedCount + 1 else checkedCount))"

definition getViewState :: "nat \<Rightarrow> string \<Rightarrow> Engine \<Rightarrow> (CheckedState \<times> Engine) option" where
  "getViewState fuel i E =
     (if searchActive E then getStateFiltered fuel E i else getStateBase fuel E i)"

subsection \<open>Selection\<close>

text \<open>The loop of \<open>getAllChecked\<close> over the keys of \<open>childrenMap\<close>.\<close>

fun collectChecked ::
  "nat \<Rightarrow> Engine \<Rightarrow> string list \<Rightarrow> string list \<Rightarrow> (string list \<times> Engine) option" where
  "collectChecked n E [] result = Some (result, E)"
| "collectChecked n E (i # ids) result =
     (if i \<notin> set (folderSet E) then
        (case getStateBase n E i of
           None \<Rightarrow> None
         | Some (st, E') \<Rightarrow>
             collectChecked n E' ids (if st = Checked then result @ [i] else result))
      else collectChecked n E ids result)"

definition getAllChecked :: "nat \<Rightarrow> Engine \<Rightarrow> (string list \<times> Engine) option" where
  "getAllChecked fuel E =
     (if allCheckedCacheVersion E = selectionVersion E then Some (allCheckedCache E, E)
      else case collectChecked fuel E (map fst (childrenMap E)) [] of
             None \<Rightarrow> None
           | Some (result, E') \<Rightarrow>
               Some (result, E'\<lparr> allCheckedCache := result,
                                 allCheckedCacheVersion := selectionVersion E' \<rparr>))"

definition setChecked :: "nat \<Rightarrow> string list \<Rightarrow> bool \<Rightarrow> Engine \<Rightarrow> Engine option" where
  "setChecked fuel input silent E =
     (let n = new_Set (filter (\<lambda>i. i \<notin> set (folderSet E)) input) in
      case getAllChecked fuel E of
        None \<Rightarrow> None
      | Some (allChecked, E1) \<Rightarrow>
          if setsEqual n (new_Set allChecked) then Some E1
          else Some (notify silent
                       (E1\<lparr> assignments := foldl (\<lambda>m i. m(i \<mapsto> True)) Map.empty n \<rparr>)))"

text \<open>
  \<open>clearSubtreeAssignments\<close>; the first argument bounds the depth of the
  recursion.
\<close>

fun clearSubtreeAssignments :: "nat \<Rightarrow> Engine \<Rightarrow> string \<Rightarrow> Engine option"
  and clearChildren :: "nat \<Rightarrow> Engine \<Rightarrow> string list \<Rightarrow> Engine option" where
  "clearSubtreeAssignments 0 E i = None"
| "clearSubtreeAssignments (Suc n) E i = clearChildren n E (childrenOf E i)"
| "clearChildren n E [] = Some E"
| "clearChildren n E (child # cs) =
     (case clearSubtreeAssignments n (E\<lparr> assignments := (assignments E)(child := None) \<rparr>) child of
        None \<Rightarrow> None
      | Some E' \<Rightarrow> clearChildren n E' cs)"

definition toggleFull :: "nat \<Rightarrow> string \<Rightarrow> bool \<Rightarrow> Engine \<Rightarrow> Engine option" where
  "toggleFull fuel i checked E =
     (case clearSubtreeAssignments fuel (E\<lparr> assignments := (assignments E)(i \<mapsto> checked) \<rparr>) i of
        None \<Rightarrow> None
      | Some E' \<Rightarrow> Some (notify False E'))"

text \<open>
  \<open>forEachVisibleLeafUnder\<close> with the callback of \<open>toggleVisibleOnly\<close>
  (\<open>this.assignments.set(leaf, checked)\<close>) written in.  The stack is a list
  whose head is the top: \<open>pop\<close> takes the head, and pushing the children
  one after the other leaves the last child on top.  The first argument
  bounds the number of iterations of the loop \<open>while (stack.length)\<close>.
\<close>

fun forEachVisibleLeafUnder :: "nat \<Rightarrow> Engine \<Rightarrow> string list \<Rightarrow> bool \<Rightarrow> Engine option" where
  "forEachVisibleLeafUnder n E [] checked = Some E"
| "forEachVisibleLeafUnder 0 E (cur # stack) checked = None"
| "forEachVisibleLeafUnder (Suc n) E (cur # stack) checked =
     (if length (visibleChildrenOf E cur) = 0 then
        (if cur \<notin> set (folderSet E)
         then forEachVisibleLeafUnder n (E\<lparr> assignments := (assignments E)(cur \<mapsto> checked) \<rparr>)
                stack checked
         else forEachVisibleLeafUnder n E stack checked)
      else forEachVisibleLeafUnder n E (rev (visibleChildrenOf E cur) @ stack) checked)"

definition toggleVisibleOnly :: "nat \<Rightarrow> string \<Rightarrow> bool \<Rightarrow> Engine \<Rightarrow> Engine option" where
  "toggleVisibleOnly fuel i checked E =
     (if i \<notin> set (folderSet E)
      then Some (notify False (E\<lparr> assignments := (assignments E)(i \<mapsto> checked) \<rparr>))
      else case forEachVisibleLeafUnder fuel E [i] checked of
             None \<Rightarrow> None
           | Some E' \<Rightarrow> Some (notify False E'))"

definition toggle :: "nat \<Rightarrow> string \<Rightarrow> bool \<Rightarrow> Engine \<Rightarrow> Engine option" where
  "toggle fuel i checked E =
     (if searchActive E then toggleVisibleOnly fuel i checked E
      else toggleFull fuel i checked E)"

subsection \<open>Search\<close>

text \<open>\<open>label.includes(q)\<close>: \<open>q\<close> occurs in \<open>label\<close> as a contiguous run.\<close>

definition str_includes :: "string \<Rightarrow> string \<Rightarrow> bool" where
  "str_includes lbl q = sublist q lbl"

text \<open>
  The loop \<open>while (p) { this.visibleSet.add(p); p = this.parentMap.get(p); }\<close>;
  the first argument bounds the number of iterations.
\<close>

fun addAncestors ::
  "nat \<Rightarrow> (string \<rightharpoonup> string option) \<Rightarrow> string option option \<Rightarrow> string list
     \<Rightarrow> string list option" where
  "addAncestors n pm p vs =
     (case truthy p of
        None \<Rightarrow> Some vs
      | Some s \<Rightarrow> (case n of
                     0 \<Rightarrow> None
                   | Suc m \<Rightarrow> addAncestors m pm (pm s) (set_add s vs)))"

text \<open>The loop \<open>for (const leaf of matches)\<close>.\<close>

fun addMatches ::
  "nat \<Rightarrow> (string \<rightharpoonup> string option) \<Rightarrow> string list \<Rightarrow> string list \<Rightarrow> string list option" where
  "addMatches n pm [] vs = Some vs"
| "addMatches n pm (leaf # matches) vs =
     (case addAncestors n pm (pm leaf) (set_add leaf vs) of
        None \<Rightarrow> None
      | Some vs' \<Rightarrow> addMatches n pm matches vs')"

text \<open>The loop that fills \<open>visibleChildrenMap\<close> from the finished \<open>visibleSet\<close>.\<close>

definition restrictChildren :: "Engine \<Rightarrow> string list \<Rightarrow> (string \<rightharpoonup> string list)" where
  "restrictChildren E vs =
     foldl (\<lambda>m i. let restricted = filter (\<lambda>c. c \<in> set vs) (childrenOf E i)
                   in if 0 < length restricted then m(i \<mapsto> restricted) else m)
           Map.empty vs"

definition setSearchQuery :: "(string \<Rightarrow> string) \<Rightarrow> nat \<Rightarrow> string \<Rightarrow> Engine \<Rightarrow> Engine option" where
  "setSearchQuery nrm fuel query E =
     (let raw = query; q = nrm raw in
      if q = normalizedQuery E then Some (E\<lparr> searchQuery := raw \<rparr>)
      else
        let wasActive = searchActive E;
            E1 = E\<lparr> searchQuery := raw, normalizedQuery := q,
                    searchActive := (minSearchChars E \<le> int (length q)),
                    visibleSet := [], visibleChildrenMap := Map.empty,
                    stateCacheFiltered := Map.empty \<rparr>;
            bump = (\<lambda>E2. callObservers
                      (E2\<lparr> searchEpoch := searchEpoch E2 + 1, version := version E2 + 1,
                           expandVersion := expandVersion E2 + 1, flatCacheVersion := - 1 \<rparr>))
        in if searchActive E1 then
             (let matches = filter (\<lambda>i. str_includes (case normalizedLeafLabel E1 i of
                                                      None \<Rightarrow> [] | Some l \<Rightarrow> l) q)
                                   (leafIds E1)
              in case addMatches fuel (parentMap E1) matches (visibleSet E1) of
                   None \<Rightarrow> None
                 | Some vs0 \<Rightarrow>
                     let vs = set_add (rootId E1) vs0 in
                     Some (bump (E1\<lparr> visibleSet := vs,
                                     visibleChildrenMap := restrictChildren E1 vs,
                                     expanded := foldl (\<lambda>s x. set_add x s) (set_add (rootId E1) [])
                                                   (filter (\<lambda>i. i \<in> set (folderSet E1)) vs) \<rparr>)))
           else Some (bump (if wasActive then E1\<lparr> expanded := set_add (rootId E1) [] \<rparr> else E1)))"

definition setMinSearchChars :: "(string \<Rightarrow> string) \<Rightarrow> nat \<Rightarrow> int \<Rightarrow> Engine \<Rightarrow> Engine option" where
  "setMinSearchChars nrm fuel n0 E =
     (let n = (if n0 < 1 then 1 else n0) in
      if minSearchChars E = n then Some E
      else setSearchQuery nrm fuel (searchQuery E) (E\<lparr> minSearchChars := n \<rparr>))"

definition isSearchActive :: "Engine \<Rightarrow> bool" where
  "isSearchActive E = searchActive E"

subsection \<open>The flattened list of visible rows\<close>

text \<open>
  \<open>(this.version << 8) ^ this.searchEpoch\<close>: both operators work on the
  operands converted to 32-bit integers and give a signed 32-bit integer.
\<close>

definition cacheKey :: "Engine \<Rightarrow> int" where
  "cacheKey E =
     sint (push_bit 8 (word_of_int (version E) :: 32 word) XOR word_of_int (searchEpoch E))"

text \<open>
  The closure \<open>visit\<close>, on the local array \<open>out\<close> and \<open>this.indexById\<close>;
  the first argument bounds the depth of the recursion.
\<close>

fun visit ::
  "nat \<Rightarrow> Engine \<Rightarrow> string \<Rightarrow> int \<Rightarrow> VisibleItem list \<times> (string \<rightharpoonup> nat)
     \<Rightarrow> (VisibleItem list \<times> (string \<rightharpoonup> nat)) option"
  and visitChildren ::
  "nat \<Rightarrow> Engine \<Rightarrow> string list \<Rightarrow> int \<Rightarrow> VisibleItem list \<times> (string \<rightharpoonup> nat)
     \<Rightarrow> (VisibleItem list \<times> (string \<rightharpoonup> nat)) option" where
  "visit 0 E i lvl acc = None"
| "visit (Suc n) E i lvl acc =
     (let c = viewChildrenOf E i in
      if i \<noteq> rootId E then
        (let isFolder = (i \<in> set (folderSet E));
             hasVisibleChildren = (0 < length c);
             effectiveFolder = (if searchActive E then hasVisibleChildren else isFolder);
             isExpanded = (effectiveFolder \<and> i \<in> set (expanded E));
             v = \<lparr> item_id = i, isExpanded = isExpanded, isFolder = effectiveFolder,
                   level = lvl \<rparr>;
             acc' = (fst acc @ [v], (snd acc)(i \<mapsto> length (fst acc)))
         in if \<not> effectiveFolder \<or> \<not> isExpanded then Some acc'
            else visitChildren n E c (lvl + 1) acc')
      else visitChildren n E c 0 acc)"
| "visitChildren n E [] lvl acc = Some acc"
| "visitChildren n E (child # cs) lvl acc =
     (case visit n E child lvl acc of
        None \<Rightarrow> None
      | Some acc' \<Rightarrow> visitChildren n E cs lvl acc')"

definition getVisibleItems :: "nat \<Rightarrow> Engine \<Rightarrow> (VisibleItem list \<times> Engine) option" where
  "getVisibleItems fuel E =
     (if flatCacheVersion E = cacheKey E then Some (flatVisibleItems E, E)
      else case visit fuel E (rootId E) (- 1) ([], Map.empty) of
             None \<Rightarrow> None
           | Some (out, idx) \<Rightarrow>
               Some (out, E\<lparr> indexById := idx, flatVisibleItems := out,
                              flatCacheVersion := cacheKey E \<rparr>))"

definition indexOf :: "nat \<Rightarrow> string \<Rightarrow> Engine \<Rightarrow> (int \<times> Engine) option" where
  "indexOf fuel i E =
     (case getVisibleItems fuel E of
        None \<Rightarrow> None
      | Some (items, E') \<Rightarrow>
          Some (case indexById E' i of None \<Rightarrow> - 1 | Some k \<Rightarrow> int k, E'))"

section \<open>The tree as a relation, and well-formed states\<close>

text \<open>\<open>(c, p) \<in> childRel E\<close>: \<open>c\<close> is listed among the children of \<open>p\<close>.\<close>

definition childRel :: "Engine \<Rightarrow> (string \<times> string) set" where
  "childRel E = {(c, p). c \<in> set (childrenOf E p)}"

text \<open>The same relation for the children arrays restricted by the search.\<close>

definition visibleRel :: "Engine \<Rightarrow> (string \<times> string) set" where
  "visibleRel E = {(c, p). c \<in> set (visibleChildrenOf E p)}"

text \<open>
  \<open>depthOk n ch i\<close>: every path that starts at \<open>i\<close> and follows the
  children arrays \<open>ch\<close> ends after fewer than \<open>n\<close> nodes.
\<close>

fun depthOk :: "nat \<Rightarrow> (string \<Rightarrow> string list) \<Rightarrow> string \<Rightarrow> bool" where
  "depthOk 0 ch i = False"
| "depthOk (Suc n) ch i = list_all (depthOk n ch) (ch i)"

text \<open>The parent of a node, read off the children arrays.\<close>

definition parentFromChildren :: "Engine \<Rightarrow> string \<Rightarrow> string option" where
  "parentFromChildren E c =
     map_of (concat (map (\<lambda>e. map (\<lambda>x. (x, fst e)) (snd e)) (childrenMap E))) c"

text \<open>
  The caller's obligation: the input is a valid forest rooted at \<open>rootId\<close>.
  The keys of the input are distinct; there is no cycle (a path has at most
  one node per entry, and one more for a child without an entry); no node is
  listed twice as a child, and the root is not listed as a child.  The other
  three conjuncts say that \<open>parentMap\<close>, \<open>folderSet\<close> and \<open>leafIds\<close>
  are what the constructor derives from the children arrays.
\<close>

definition validForest :: "Engine \<Rightarrow> bool" where
  "validForest E \<longleftrightarrow>
     distinct (map fst (childrenMap E)) \<and>
     list_all (depthOk (Suc (length (childrenMap E))) (childrenOf E)) (map fst (childrenMap E)) \<and>
     distinct (concat (map snd (childrenMap E))) \<and>
     rootId E \<notin> set (concat (map snd (childrenMap E))) \<and>
     (\<forall>c. parentMap E c =
            (case parentFromChildren E c of
               Some p \<Rightarrow> Some (Some p)
             | None \<Rightarrow> if c = rootId E then Some None else None)) \<and>
     folderSet E = filter (\<lambda>i. childrenOf E i \<noteq> []) (map fst (childrenMap E)) \<and>
     leafIds E = filter (\<lambda>i. childrenOf E i = []) (map fst (childrenMap E))"

text \<open>A bound on the recursion depth and loop iterations that suffices in a valid forest.\<close>

definition fuelBound :: "Engine \<Rightarrow> nat" where
  "fuelBound E = 2 * length (childrenMap E) + 3"

text \<open>
  The search overlay is what \<open>setSearchQuery\<close> left: every entry of
  \<open>visibleChildrenMap\<close> is the non-empty restriction of the node's children
  to \<open>visibleSet\<close>.
\<close>

definition overlayOk :: "Engine \<Rightarrow> bool" where
  "overlayOk E \<longleftrightarrow>
     (\<forall>i cs. visibleChildrenMap E i = Some cs \<longrightarrow>
        cs \<noteq> [] \<and> cs = filter (\<lambda>c. c \<in> set (visibleSet E)) (childrenOf E i))"

section \<open>Sequences of public operations\<close>

datatype Operation =
    ToggleExpanded string
  | CollapseAll
  | ExpandAll
  | SetExpanded "string list"
  | SetSearchQuery string
  | SetMinSearchChars int
  | Toggle string bool
  | SetChecked "string list" bool
  | Subscribe nat

fun applyOperation :: "(string \<Rightarrow> string) \<Rightarrow> nat \<Rightarrow> Operation \<Rightarrow> Engine \<Rightarrow> Engine option" where
  "applyOperation nrm fuel (ToggleExpanded i) E = Some (toggleExpanded i E)"
| "applyOperation nrm fuel CollapseAll E = Some (collapseAll E)"
| "applyOperation nrm fuel ExpandAll E = Some (expandAll E)"
| "applyOperation nrm fuel (SetExpanded ids) E = Some (setExpanded ids E)"
| "applyOperation nrm fuel (SetSearchQuery q) E = setSearchQuery nrm fuel q E"
| "applyOperation nrm fuel (SetMinSearchChars n) E = setMinSearchChars nrm fuel n E"
| "applyOperation nrm fuel (Toggle i checked) E = toggle fuel i checked E"
| "applyOperation nrm fuel (SetChecked ids silent) E = setChecked fuel ids silent E"
| "applyOperation nrm fuel (Subscribe cb) E = Some (subscribe cb E)"

fun runOperations ::
  "(string \<Rightarrow> string) \<Rightarrow> nat \<Rightarrow> Operation list \<Rightarrow> Engine \<Rightarrow> Engine option" where
  "runOperations nrm fuel [] E = Some E"
| "runOperations nrm fuel (op # ops) E =
     (case applyOperation nrm fuel op E of
        None \<Rightarrow> None
      | Some E' \<Rightarrow> runOperations nrm fuel ops E')"

section \<open>Example inputs\<close>

definition noOptions :: Options where
  "noOptions = \<lparr> initialExpanded = None, optMinSearchChars = None, optRootId = None \<rparr>"

text \<open>A root with a folder \<open>p\<close> (leaves \<open>a\<close>, \<open>c\<close>) and a leaf \<open>b\<close>.\<close>

definition exampleData :: TreeDefinition where
  "exampleData =
     [(''__root__'', \<lparr> children = Some [''p'', ''b''], label = Some ''root'' \<rparr>),
      (''p'', \<lparr> children = Some [''a'', ''c''], label = Some ''P'' \<rparr>),
      (''a'', \<lparr> children = None, label = Some ''alpha'' \<rparr>),
      (''c'', \<lparr> children = Some [], label = Some ''gamma'' \<rparr>),
      (''b'', \<lparr> children = None, label = Some ''beta'' \<rparr>)]"

definition exampleEngine :: Engine where
  "exampleEngine = newEngine (\<lambda>s. s) exampleData noOptions"

text \<open>A root that has no children.\<close>

definition bareRootData :: TreeDefinition where
  "bareRootData = [(''__root__'', \<lparr> children = None, label = Some ''root'' \<rparr>)]"

text \<open>A folder whose id is the empty string, between the root and a leaf.\<close>

definition emptyIdData :: TreeDefinition where
  "emptyIdData =
     [(''__root__'', \<lparr> children = Some [''''], label = Some ''root'' \<rparr>),
      ('''', \<lparr> children = Some [''a''], label = Some ''folder'' \<rparr>),
      (''a'', \<lparr> children = None, label = Some ''alpha'' \<rparr>)]"

section \<open>Invariants of the expansion state\<close>

text \<open>The property that every operation keeps: the root is a folder and is expanded.\<close>

definition rootOpen :: "Engine \<Rightarrow> bool" where
  "rootOpen E \<longleftrightarrow> rootId E \<in> set (folderSet E) \<and> rootId E \<in> set (expanded E)"

text \<open>A rank that decreases from a node to each of its children.\<close>

definition rankOf :: "Engine \<Rightarrow> string \<Rightarrow> nat" where
  "rankOf E i = (LEAST r. depthOk r (childrenOf E) i)"

text \<open>The example tree with explicit assignments on the leaves \<open>a\<close>, \<open>c\<close> and \<open>b\<close>.\<close>

definition exampleAssigned :: Engine where
  "exampleAssigned =
     exampleEngine\<lparr> assignments := [''a'' \<mapsto> False, ''c'' \<mapsto> True, ''b'' \<mapsto> False] \<rparr>"

text \<open>
  The visible structural leaves that are reachable from \<open>i\<close> through
  \<open>visibleChildrenMap\<close>: nodes below (or equal to) \<open>i\<close> in the restricted
  relation that have no visible child and are not structural folders.
\<close>

definition visibleLeavesUnder :: "Engine \<Rightarrow> string \<Rightarrow> string set" where
  "visibleLeavesUnder E i =
     {x. (x, i) \<in> (visibleRel E)\<^sup>* \<and> visibleChildrenOf E x = [] \<and> x \<notin> set (folderSet E)}"

text \<open>
  The state of \<open>exampleAssigned\<close> after \<open>setSearchQuery("alp")\<close>: the leaf
  \<open>a\<close> matches, its sibling \<open>c\<close> and the leaf \<open>b\<close> are hidden.
\<close>

definition exampleSearch :: Engine where
  "exampleSearch =
     exampleAssigned\<lparr>
       searchQuery := ''alp'', normalizedQuery := ''alp'', searchActive := True,
       visibleSet := [''a'', ''p'', ''__root__''],
       visibleChildrenMap := [''p'' \<mapsto> [''a''], ''__root__'' \<mapsto> [''p'']],
       expanded := [''__root__'', ''p''],
       searchEpoch := 1, version := 1, expandVersion := 1 \<rparr>"

text \<open>
  The state of \<open>exampleAssigned\<close> with one subscriber after
  \<open>setSearchQuery("bet")\<close>: only the leaf \<open>b\<close> matches, and the folder
  \<open>p\<close> has no visible child.
\<close>

definition exampleSearchB :: Engine where
  "exampleSearchB =
     exampleAssigned\<lparr>
       observers := [7], calls := [7],
       searchQuery := ''bet'', normalizedQuery := ''bet'', searchActive := True,
       visibleSet := [''b'', ''__root__''],
       visibleChildrenMap := [''__root__'' \<mapsto> [''b'']],
       expanded := [''__root__''],
       searchEpoch := 1, version := 1, expandVersion := 1 \<rparr>"

section \<open>Tri-state of a folder, as the specification words it\<close>

text \<open>The nodes without children at or below \<open>i\<close> in the unrestricted tree.\<close>

definition leavesUnder :: "Engine \<Rightarrow> string \<Rightarrow> string set" where
  "leavesUnder E i = {d. (d, i) \<in> (childRel E)\<^sup>* \<and> childrenOf E d = []}"

text \<open>The leaf descendants of \<open>f\<close>: the nodes without children strictly below \<open>f\<close>.\<close>

definition leafDescendants :: "Engine \<Rightarrow> string \<Rightarrow> string set" where
  "leafDescendants E f = {d. (d, f) \<in> (childRel E)\<^sup>+ \<and> childrenOf E d = []}"

text \<open>
  What a leaf resolves to: the nearest explicit assignment on the way up,
  \<open>Checked\<close> when it is \<open>true\<close> and \<open>Unchecked\<close> otherwise.
\<close>

definition resolvedLeaf :: "Engine \<Rightarrow> string \<Rightarrow> CheckedState" where
  "resolvedLeaf E d =
     (case findNearestAssignment (fuelBound E) E (Some d) of
        Some forced \<Rightarrow> leafState forced
      | None \<Rightarrow> Unchecked)"

text \<open>
  The tri-state that the specification asks for: \<open>Checked\<close> iff every leaf at
  or below the node resolves \<open>Checked\<close>, \<open>Unchecked\<close> iff every such leaf
  resolves \<open>Unchecked\<close>, and \<open>Indeterminate\<close> otherwise.
\<close>

definition summaryState :: "Engine \<Rightarrow> string \<Rightarrow> CheckedState" where
  "summaryState E i =
     (if \<forall>d \<in> leavesUnder E i. resolvedLeaf E d = Checked then Checked
      else if \<forall>d \<in> leavesUnder E i. resolvedLeaf E d = Unchecked then Unchecked
      else Indeterminate)"

text \<open>
  The memo table of the full-tree resolver holds only values that the
  resolver computes, for the current assignments, from an empty table.
\<close>

definition cacheCoherent :: "Engine \<Rightarrow> bool" where
  "cacheCoherent E \<longleftrightarrow>
     (\<forall>i st. stateCache E i = Some st \<longrightarrow>
        (\<exists>E'. getStateBase (fuelBound E) (E\<lparr> stateCache := Map.empty \<rparr>) i = Some (st, E')))"

text \<open>A memo table that holds only the tri-states the specification asks for.\<close>

definition tableOk :: "Engine \<Rightarrow> (string \<rightharpoonup> CheckedState) \<Rightarrow> bool" where
  "tableOk E c \<longleftrightarrow> (\<forall>i st. c i = Some st \<longrightarrow> st = summaryState E i)"

text \<open>The example tree with assignments and a memo table that already holds the leaf \<open>a\<close>.\<close>

definition exampleWarm :: Engine where
  "exampleWarm = exampleAssigned\<lparr> stateCache := [''a'' \<mapsto> Unchecked] \<rparr>"

text \<open>
  The cache of \<open>getAllChecked\<close>, when it is valid, holds no structural
  folder (the loop that fills it skips the members of \<open>folderSet\<close>).
\<close>

definition allCheckedCacheOk :: "Engine \<Rightarrow> bool" where
  "allCheckedCacheOk E \<longleftrightarrow>
     (allCheckedCacheVersion E = selectionVersion E \<longrightarrow>
        (\<forall>i \<in> set (allCheckedCache E). i \<notin> set (folderSet E)))"

text \<open>The example tree with an explicit assignment on the folder \<open>p\<close>.\<close>

definition exampleFolderAssigned :: Engine where
  "exampleFolderAssigned =
     exampleEngine\<lparr> assignments := [''p'' \<mapsto> True, ''b'' \<mapsto> False] \<rparr>"

text \<open>
  The structural leaves whose pre-normalised label contains the normalised
  query \<open>q\<close>, and the visible set that the specification asks for: the
  matching leaves, their ancestors, and the root.
\<close>

definition matchingLeaves :: "Engine \<Rightarrow> string \<Rightarrow> string set" where
  "matchingLeaves E q =
     {l \<in> set (leafIds E).
        str_includes (case normalizedLeafLabel E l of None \<Rightarrow> [] | Some lbl \<Rightarrow> lbl) q}"

definition specVisible :: "Engine \<Rightarrow> string \<Rightarrow> string set" where
  "specVisible E q =
     matchingLeaves E q \<union> {a. \<exists>l \<in> matchingLeaves E q. (l, a) \<in> (childRel E)\<^sup>+} \<union> {rootId E}"

definition emptyIdEngine :: Engine where
  "emptyIdEngine = newEngine (\<lambda>s. s) emptyIdData noOptions"

text \<open>The operations on the expansion state and the search query.\<close>

fun expansionOp :: "Operation \<Rightarrow> bool" where
  "expansionOp (ToggleExpanded i) = True"
| "expansionOp CollapseAll = True"
| "expansionOp ExpandAll = True"
| "expansionOp (SetExpanded ids) = True"
| "expansionOp (SetSearchQuery q) = True"
| "expansionOp _ = False"

text \<open>Two engine states with the same immutable topology.\<close>

definition sameTopology :: "Engine \<Rightarrow> Engine \<Rightarrow> bool" where
  "sameTopology E' E \<longleftrightarrow>
     childrenMap E' = childrenMap E \<and> parentMap E' = parentMap E \<and> rootId E' = rootId E \<and>
     folderSet E' = folderSet E \<and> leafIds E' = leafIds E"

section \<open>The flattened list and its index\<close>

text \<open>The children relation of the current view.\<close>

definition viewRel :: "Engine \<Rightarrow> (string \<times> string) set" where
  "viewRel E = {(c, p). c \<in> set (viewChildrenOf E p)}"

text \<open>
  \<open>rowsOk out idx new idx'\<close>: the rows \<open>new\<close>, appended to \<open>out\<close>, have
  distinct ids, and \<open>idx'\<close> is \<open>idx\<close> with the position of each new row.
\<close>

definition rowsOk ::
  "VisibleItem list \<Rightarrow> (string \<rightharpoonup> nat) \<Rightarrow> VisibleItem list \<Rightarrow> (string \<rightharpoonup> nat) \<Rightarrow> bool" where
  "rowsOk out idx new idx' \<longleftrightarrow>
     distinct (map item_id new) \<and>
     (\<forall>k < length new. idx' (item_id (new ! k)) = Some (length out + k)) \<and>
     (\<forall>x. x \<notin> set (map item_id new) \<longrightarrow> idx' x = idx x)"

text \<open>
  The cached index belongs to the cached list: whenever the cache key says
  that the cached list is current, \<open>indexById\<close> maps the id of each cached
  row to its position and nothing else.
\<close>

definition flatCacheOk :: "Engine \<Rightarrow> bool" where
  "flatCacheOk E \<longleftrightarrow>
     (flatCacheVersion E = cacheKey E \<longrightarrow>
        rowsOk [] Map.empty (flatVisibleItems E) (indexById E))"

text \<open>The example tree with every folder expanded.\<close>

definition exampleExpanded :: Engine where
  "exampleExpanded = expandAll exampleEngine"

section \<open>Valid inputs and reachable states\<close>

text \<open>The children arrays of the input, entry by entry.\<close>

definition inputChildren :: "TreeDefinition \<Rightarrow> (string \<times> string list) list" where
  "inputChildren data =
     map (\<lambda>e. (fst e, case children (snd e) of None \<Rightarrow> [] | Some c \<Rightarrow> c)) data"

text \<open>
  The input is a valid forest rooted at \<open>root\<close>: distinct keys, no cycle,
  no node listed twice as a child, and the root listed nowhere as a child.
\<close>

definition validInput :: "TreeDefinition \<Rightarrow> string \<Rightarrow> bool" where
  "validInput data root \<longleftrightarrow>
     distinct (map fst data) \<and>
     list_all (depthOk (Suc (length data))
                 (\<lambda>i. case map_of (inputChildren data) i of None \<Rightarrow> [] | Some cs \<Rightarrow> cs))
              (map fst data) \<and>
     distinct (concat (map snd (inputChildren data))) \<and>
     root \<notin> set (concat (map snd (inputChildren data)))"

text \<open>
  The state invariant: the topology fields describe a valid forest, the
  search overlay and the memo table of the full-tree resolver are what the
  engine computed, the cached result of \<open>getAllChecked\<close> holds no
  structural folder when it is current, the cached index belongs to the
  cached list, the expanded set has no duplicate, and the selection version
  has not gone below its initial value.
\<close>

definition engineOk :: "Engine \<Rightarrow> bool" where
  "engineOk E \<longleftrightarrow>
     validForest E \<and> overlayOk E \<and> tableOk E (stateCache E) \<and> allCheckedCacheOk E \<and>
     rowsOk [] Map.empty (flatVisibleItems E) (indexById E) \<and>
     distinct (expanded E) \<and> 0 \<le> selectionVersion E"

text \<open>
  A step of a client: one of the operations above, or one of the reading
  methods, which fill the caches of the engine.
\<close>

datatype Step =
    Op Operation
  | GetViewState string
  | GetAllChecked
  | GetVisibleItems
  | IndexOf string

fun applyStep :: "(string \<Rightarrow> string) \<Rightarrow> nat \<Rightarrow> Step \<Rightarrow> Engine \<Rightarrow> Engine option" where
  "applyStep nrm fuel (Op op) E = applyOperation nrm fuel op E"
| "applyStep nrm fuel (GetViewState i) E = map_option snd (getViewState fuel i E)"
| "applyStep nrm fuel GetAllChecked E = map_option snd (getAllChecked fuel E)"
| "applyStep nrm fuel GetVisibleItems E = map_option snd (getVisibleItems fuel E)"
| "applyStep nrm fuel (IndexOf i) E = map_option snd (indexOf fuel i E)"

fun runSteps :: "(string \<Rightarrow> string) \<Rightarrow> nat \<Rightarrow> Step list \<Rightarrow> Engine \<Rightarrow> Engine option" where
  "runSteps nrm fuel [] E = Some E"
| "runSteps nrm fuel (s # ss) E =
     (case applyStep nrm fuel s E of
        None \<Rightarrow> None
      | Some E' \<Rightarrow> runSteps nrm fuel ss E')"

section \<open>Basic facts: sets of the host language\<close>

lemma set_set_add [simp]: "set (set_add x xs) = insert x (set xs)"
  by (auto simp: set_add_def)

lemma distinct_set_add [simp]: "distinct (set_add x xs) = distinct xs"
  by (auto simp: set_add_def)

lemma set_foldl_set_add [simp]: "set (foldl (\<lambda>s x. set_add x s) acc xs) = set acc \<union> set xs"
  by (induction xs arbitrary: acc) auto

lemma distinct_foldl_set_add [simp]:
  "distinct (foldl (\<lambda>s x. set_add x s) acc xs) = distinct acc"
  by (induction xs arbitrary: acc) auto

lemma set_new_Set [simp]: "set (new_Set xs) = set xs"
  by (simp add: new_Set_def)

lemma distinct_new_Set [simp]: "distinct (new_Set xs)"
  by (simp add: new_Set_def)

lemma foldl_set_add_append:
  "distinct xs \<Longrightarrow> set xs \<inter> set acc = {} \<Longrightarrow> foldl (\<lambda>s x. set_add x s) acc xs = acc @ xs"
  by (induction xs arbitrary: acc) (auto simp: set_add_def)

lemma new_Set_distinct: "distinct xs \<Longrightarrow> new_Set xs = xs"
  by (simp add: new_Set_def foldl_set_add_append)

lemma setsEqual_iff:
  assumes "distinct a" and "distinct b"
  shows "setsEqual a b \<longleftrightarrow> set a = set b"
proof
  assume "setsEqual a b"
  then have l: "length a = length b" and s: "set a \<subseteq> set b"
    by (auto simp: setsEqual_def list_all_iff split: if_splits)
  from assms l have "card (set a) = card (set b)" by (simp add: distinct_card)
  with s show "set a = set b" by (simp add: card_subset_eq)
next
  assume e: "set a = set b"
  with assms have "length a = length b" by (metis distinct_card)
  with e show "setsEqual a b" by (auto simp: setsEqual_def list_all_iff)
qed

section \<open>Root stays expanded\<close>

lemma expanded_bumpNoRecompute [simp]: "expanded (bumpNoRecompute E) = expanded E"
  and rootId_bumpNoRecompute [simp]: "rootId (bumpNoRecompute E) = rootId E"
  and folderSet_bumpNoRecompute [simp]: "folderSet (bumpNoRecompute E) = folderSet E"
  by (simp_all add: bumpNoRecompute_def callObservers_def)

lemma expanded_notify [simp]: "expanded (notify s E) = expanded E"
  and rootId_notify [simp]: "rootId (notify s E) = rootId E"
  and folderSet_notify [simp]: "folderSet (notify s E) = folderSet E"
  by (simp_all add: notify_def callObservers_def)


lemma rootOpen_toggleExpanded: "rootOpen E \<Longrightarrow> rootOpen (toggleExpanded i E)"
  by (cases "i = rootId E") (simp_all add: rootOpen_def toggleExpanded_def Let_def)

lemma rootOpen_collapseAll: "rootOpen E \<Longrightarrow> rootOpen (collapseAll E)"
  by (auto simp: rootOpen_def collapseAll_def)

lemma rootOpen_expandAll: "rootOpen E \<Longrightarrow> rootOpen (expandAll E)"
  by (auto simp: rootOpen_def expandAll_def)

lemma rootOpen_setExpanded: "rootOpen E \<Longrightarrow> rootOpen (setExpanded ids E)"
  by (auto simp: rootOpen_def setExpanded_def Let_def)

lemma rootOpen_subscribe: "rootOpen E \<Longrightarrow> rootOpen (subscribe cb E)"
  by (auto simp: rootOpen_def subscribe_def)

lemma rootOpen_setSearchQuery:
  "rootOpen E \<Longrightarrow> setSearchQuery nrm fuel q E = Some E' \<Longrightarrow> rootOpen E'"
  by (auto simp: rootOpen_def setSearchQuery_def Let_def callObservers_def
           split: if_splits option.splits)

lemma rootOpen_setMinSearchChars:
  "rootOpen E \<Longrightarrow> setMinSearchChars nrm fuel n E = Some E' \<Longrightarrow> rootOpen E'"
  unfolding setMinSearchChars_def Let_def
  by (auto split: if_splits dest!: rootOpen_setSearchQuery [rotated] simp: rootOpen_def)

section \<open>The children relation of a valid forest\<close>

lemma depthOk_mono: "depthOk r ch i \<Longrightarrow> r \<le> n \<Longrightarrow> depthOk n ch i"
proof (induction r arbitrary: n i)
  case 0
  then show ?case by simp
next
  case (Suc r)
  then obtain m where n: "n = Suc m" and le: "r \<le> m" by (cases n) auto
  from Suc.prems(1) have "\<forall>c \<in> set (ch i). depthOk r ch c" by (simp add: list_all_iff)
  with Suc.IH le have "\<forall>c \<in> set (ch i). depthOk m ch c" by blast
  then show ?case by (simp add: n list_all_iff)
qed

lemma depthOk_child:
  "depthOk r ch p \<Longrightarrow> c \<in> set (ch p) \<Longrightarrow> \<exists>r'. r = Suc r' \<and> depthOk r' ch c"
  by (cases r) (auto simp: list_all_iff)

lemma validForest_depthOk:
  assumes "validForest E"
  shows "depthOk (Suc (length (childrenMap E))) (childrenOf E) i"
proof (cases "i \<in> set (map fst (childrenMap E))")
  case True
  with assms show ?thesis
    unfolding validForest_def list_all_iff by blast
next
  case False
  then have "map_of (childrenMap E) i = None" by (simp add: map_of_eq_None_iff)
  then show ?thesis by (simp add: childrenOf_def)
qed


lemma depthOk_rankOf: "validForest E \<Longrightarrow> depthOk (rankOf E i) (childrenOf E) i"
  unfolding rankOf_def by (rule LeastI) (rule validForest_depthOk)

lemma rankOf_le: "depthOk r (childrenOf E) i \<Longrightarrow> rankOf E i \<le> r"
  unfolding rankOf_def by (rule Least_le)

lemma rankOf_bound: "validForest E \<Longrightarrow> rankOf E i \<le> Suc (length (childrenMap E))"
  by (rule rankOf_le) (rule validForest_depthOk)

lemma rankOf_child:
  assumes "validForest E" and "c \<in> set (childrenOf E p)"
  shows "rankOf E c < rankOf E p"
proof -
  from depthOk_child [OF depthOk_rankOf [OF assms(1)] assms(2)]
  obtain r' where r: "rankOf E p = Suc r'" and d: "depthOk r' (childrenOf E) c" by blast
  from rankOf_le [OF d] r show ?thesis by simp
qed

lemma wf_childRel:
  assumes "validForest E"
  shows "wf (childRel E)"
proof (rule wf_subset [OF wf_measure [of "rankOf E"]])
  show "childRel E \<subseteq> measure (rankOf E)"
    using rankOf_child [OF assms] by (auto simp: childRel_def)
qed

lemma childRel_irrefl:
  assumes "validForest E"
  shows "(i, i) \<notin> (childRel E)\<^sup>+"
proof -
  have "wf ((childRel E)\<^sup>+)" by (rule wf_trancl) (rule wf_childRel [OF assms])
  then show ?thesis by (rule wf_not_refl)
qed

lemma trancl_childRel_iff:
  "(x, i) \<in> (childRel E)\<^sup>+ \<longleftrightarrow> (\<exists>c \<in> set (childrenOf E i). (x, c) \<in> (childRel E)\<^sup>*)"
proof
  assume "(x, i) \<in> (childRel E)\<^sup>+"
  from tranclD2 [OF this]
  obtain c where "(x, c) \<in> (childRel E)\<^sup>*" and "(c, i) \<in> childRel E"
    by blast
  then show "\<exists>c \<in> set (childrenOf E i). (x, c) \<in> (childRel E)\<^sup>*"
    by (auto simp: childRel_def)
next
  assume "\<exists>c \<in> set (childrenOf E i). (x, c) \<in> (childRel E)\<^sup>*"
  then obtain c where "(x, c) \<in> (childRel E)\<^sup>*" and "(c, i) \<in> childRel E"
    by (auto simp: childRel_def)
  then show "(x, i) \<in> (childRel E)\<^sup>+" by (rule rtrancl_into_trancl1)
qed

lemma childrenOf_cong: "childrenMap E' = childrenMap E \<Longrightarrow> childrenOf E' = childrenOf E"
  by (simp add: childrenOf_def fun_eq_iff)

lemma childRel_cong: "childrenMap E' = childrenMap E \<Longrightarrow> childRel E' = childRel E"
  unfolding childRel_def by (drule childrenOf_cong) simp

lemma childrenOf_assignments_update [simp]:
  "childrenOf (E\<lparr> assignments := a \<rparr>) = childrenOf E"
  by (rule childrenOf_cong) simp

lemma childRel_assignments_update [simp]:
  "childRel (E\<lparr> assignments := a \<rparr>) = childRel E"
  by (rule childRel_cong) simp

section \<open>Full-mode toggling\<close>

lemma clear_effect:
  "clearSubtreeAssignments n E i = Some E' \<Longrightarrow>
     E' = E\<lparr> assignments :=
               (\<lambda>x. if (x, i) \<in> (childRel E)\<^sup>+ then None else assignments E x) \<rparr>"
  "clearChildren n E cs = Some E' \<Longrightarrow>
     E' = E\<lparr> assignments :=
               (\<lambda>x. if \<exists>c \<in> set cs. (x, c) \<in> (childRel E)\<^sup>* then None
                    else assignments E x) \<rparr>"
proof (induction n E i and n E cs arbitrary: E' and E'
       rule: clearSubtreeAssignments_clearChildren.induct)
  case (1 E i)
  then show ?case by simp
next
  case (2 n E i)
  from 2 show ?case by (simp add: trancl_childRel_iff)
next
  case (3 n E)
  then show ?case by simp
next
  case (4 n E child cs)
  let ?E1 = "E\<lparr> assignments := (assignments E)(child := None) \<rparr>"
  from "4.prems" obtain E2 where
    a: "clearSubtreeAssignments n ?E1 child = Some E2" and b: "clearChildren n E2 cs = Some E'"
    by (auto split: option.splits)
  define g where "g = (\<lambda>x. if (x, child) \<in> (childRel E)\<^sup>* then None else assignments E x)"
  have "(\<lambda>x. if (x, child) \<in> (childRel E)\<^sup>+ then None else assignments ?E1 x) = g"
    by (auto simp: g_def fun_eq_iff rtrancl_eq_or_trancl)
  with "4.IH"(1) [OF a] have E2: "E2 = E\<lparr> assignments := g \<rparr>" by simp
  then have R: "childRel E2 = childRel E" by simp
  have a2: "assignments E2 = g" by (simp add: E2)
  have eq: "(\<lambda>x. if \<exists>c \<in> set cs. (x, c) \<in> (childRel E)\<^sup>* then None else g x) =
        (\<lambda>x. if \<exists>c \<in> set (child # cs). (x, c) \<in> (childRel E)\<^sup>* then None
             else assignments E x)"
    by (auto simp: g_def fun_eq_iff)
  from "4.IH"(2) [OF a b] have "E' = E2\<lparr> assignments :=
     (\<lambda>x. if \<exists>c \<in> set cs. (x, c) \<in> (childRel E)\<^sup>* then None else g x) \<rparr>"
    unfolding R a2 .
  then show ?case unfolding eq by (simp add: E2)
qed

lemma clear_total:
  "depthOk r (childrenOf E) i \<Longrightarrow> r \<le> n \<Longrightarrow> \<exists>E'. clearSubtreeAssignments n E i = Some E'"
  "list_all (depthOk r (childrenOf E)) cs \<Longrightarrow> r \<le> n \<Longrightarrow> \<exists>E'. clearChildren n E cs = Some E'"
proof (induction n E i and n E cs arbitrary: r and r
       rule: clearSubtreeAssignments_clearChildren.induct)
  case (1 E i)
  then show ?case by simp
next
  case (2 n E i)
  from "2.prems" obtain r' where r: "r = Suc r'" by (cases r) auto
  with "2.prems" have "list_all (depthOk r' (childrenOf E)) (childrenOf E i)" and "r' \<le> n"
    by simp_all
  from "2.IH" [OF this] show ?case by simp
next
  case (3 n E)
  then show ?case by simp
next
  case (4 n E child cs)
  let ?E1 = "E\<lparr> assignments := (assignments E)(child := None) \<rparr>"
  from "4.prems" have "depthOk r (childrenOf ?E1) child" by simp
  from "4.IH"(1) [OF this "4.prems"(2)]
  obtain E2 where a: "clearSubtreeAssignments n ?E1 child = Some E2" by blast
  from clear_effect(1) [OF a] obtain g where "E2 = ?E1\<lparr> assignments := g \<rparr>" by blast
  then have "childrenOf E2 = childrenOf E" by simp
  with "4.prems" have "list_all (depthOk r (childrenOf E2)) cs" by simp
  from "4.IH"(2) [OF a this "4.prems"(2)] a show ?case by simp
qed

lemma assignments_notify [simp]: "assignments (notify s E) = assignments E"
  by (simp add: notify_def callObservers_def)

lemma exampleEngine_eq:
  "exampleEngine =
     \<lparr> allCheckedCache = [], allCheckedCacheVersion = - 1, assignments = Map.empty,
       childrenMap = [(''__root__'', [''p'', ''b'']), (''p'', [''a'', ''c'']),
                      (''a'', []), (''c'', []), (''b'', [])],
       expanded = [''__root__''], expandVersion = 0, flatCacheVersion = - 1,
       flatVisibleItems = [], folderSet = [''__root__'', ''p''], indexById = Map.empty,
       labelMap = [''__root__'' \<mapsto> ''root'', ''p'' \<mapsto> ''P'', ''a'' \<mapsto> ''alpha'',
                   ''c'' \<mapsto> ''gamma'', ''b'' \<mapsto> ''beta''],
       leafIds = [''a'', ''c'', ''b''], minSearchChars = 3,
       normalizedLeafLabel = [''a'' \<mapsto> ''alpha'', ''c'' \<mapsto> ''gamma'', ''b'' \<mapsto> ''beta''],
       normalizedQuery = [], observers = [],
       parentMap = [''p'' \<mapsto> Some ''__root__'', ''b'' \<mapsto> Some ''__root__'',
                    ''a'' \<mapsto> Some ''p'', ''c'' \<mapsto> Some ''p'', ''__root__'' \<mapsto> None],
       rootId = ''__root__'', searchActive = False, searchEpoch = 0, searchQuery = [],
       selectionVersion = 0, stateCache = Map.empty, stateCacheFiltered = Map.empty,
       version = 0, visibleChildrenMap = Map.empty, visibleSet = [], calls = [] \<rparr>"
  by (simp add: exampleEngine_def newEngine_def exampleData_def noOptions_def buildEntry_def
        Let_def emptyEngine_def set_add_def)

lemma validForest_exampleEngine: "validForest exampleEngine"
  unfolding validForest_def exampleEngine_eq
  by (simp add: childrenOf_def parentFromChildren_def)

lemma validForest_topology:
  "childrenMap E' = childrenMap E \<Longrightarrow> parentMap E' = parentMap E \<Longrightarrow> rootId E' = rootId E \<Longrightarrow>
   folderSet E' = folderSet E \<Longrightarrow> leafIds E' = leafIds E \<Longrightarrow> validForest E' = validForest E"
  unfolding validForest_def parentFromChildren_def
  by (frule childrenOf_cong) simp

lemma validForest_exampleAssigned: "validForest exampleAssigned"
proof -
  have "validForest exampleAssigned = validForest exampleEngine"
    by (rule validForest_topology) (simp_all add: exampleAssigned_def)
  then show ?thesis by (simp add: validForest_exampleEngine)
qed

lemma validForest_fuel:
  "validForest E \<Longrightarrow> fuelBound E \<le> n \<Longrightarrow> depthOk n (childrenOf E) i"
  by (rule depthOk_mono [OF validForest_depthOk]) (simp_all add: fuelBound_def)

lemma trancl_childRel_unfold:
  "(x, i) \<in> (childRel E)\<^sup>+ \<longleftrightarrow>
     (\<exists>c \<in> set (childrenOf E i). x = c \<or> (x, c) \<in> (childRel E)\<^sup>+)"
  by (subst trancl_childRel_iff) (auto simp: rtrancl_eq_or_trancl)

lemma trancl_childRel_leaf: "childrenOf E i = [] \<Longrightarrow> (x, i) \<notin> (childRel E)\<^sup>+"
  by (subst trancl_childRel_iff) simp

text \<open>
  C2.  In a valid forest, with enough fuel, \<open>toggleFull\<close> returns; afterwards the
  assignment map holds \<open>i \<mapsto> checked\<close>, holds no entry for a proper
  descendant of \<open>i\<close> in the unrestricted children relation, and is unchanged
  outside the subtree of \<open>i\<close>.  The search state plays no part in this; when
  search is inactive, \<open>toggle\<close> is \<open>toggleFull\<close>.
\<close>

theorem toggleFull_consolidates:
  assumes "validForest E" and "fuelBound E \<le> fuel"
  shows "\<exists>E'. toggleFull fuel i checked E = Some E' \<and>
              (\<not> searchActive E \<longrightarrow> toggle fuel i checked E = Some E') \<and>
              assignments E' i = Some checked \<and>
              (\<forall>d. (d, i) \<in> (childRel E)\<^sup>+ \<longrightarrow> assignments E' d = None) \<and>
              (\<forall>x. x \<noteq> i \<and> (x, i) \<notin> (childRel E)\<^sup>+ \<longrightarrow>
                     assignments E' x = assignments E x)"
proof -
  let ?E1 = "E\<lparr> assignments := (assignments E)(i \<mapsto> checked) \<rparr>"
  have "depthOk fuel (childrenOf ?E1) i"
    using validForest_fuel [OF assms] by simp
  from clear_total(1) [OF this order_refl]
  obtain E2 where c: "clearSubtreeAssignments fuel ?E1 i = Some E2" by blast
  have a: "assignments E2 =
             (\<lambda>x. if (x, i) \<in> (childRel E)\<^sup>+ then None else ((assignments E)(i \<mapsto> checked)) x)"
    by (subst clear_effect(1) [OF c]) (simp cong: if_cong)
  have t: "toggleFull fuel i checked E = Some (notify False E2)"
    by (simp add: toggleFull_def c)
  have "assignments (notify False E2) i = Some checked"
    using childRel_irrefl [OF assms(1), of i] by (simp add: a)
  moreover have "\<forall>d. (d, i) \<in> (childRel E)\<^sup>+ \<longrightarrow> assignments (notify False E2) d = None"
    by (simp add: a)
  moreover have "\<forall>x. x \<noteq> i \<and> (x, i) \<notin> (childRel E)\<^sup>+ \<longrightarrow>
                   assignments (notify False E2) x = assignments E x"
    by (simp add: a)
  ultimately show ?thesis using t by (simp add: toggle_def)
qed

theorem toggleFull_consolidates_witness:
  "validForest exampleAssigned \<and> fuelBound exampleAssigned \<le> 13 \<and>
   (\<exists>E'. toggleFull 13 ''p'' True exampleAssigned = Some E' \<and>
         toggle 13 ''p'' True exampleAssigned = Some E' \<and>
         assignments E' ''p'' = Some True \<and>
         assignments E' ''a'' = None \<and> assignments E' ''c'' = None \<and>
         assignments E' ''b'' = Some False)"
proof -
  have v: "validForest exampleAssigned" by (rule validForest_exampleAssigned)
  have f: "fuelBound exampleAssigned \<le> 13"
    by (simp add: fuelBound_def exampleAssigned_def exampleEngine_eq)
  have ch: "childrenOf exampleAssigned ''p'' = [''a'', ''c'']"
           "childrenOf exampleAssigned ''a'' = []" "childrenOf exampleAssigned ''c'' = []"
    by (simp_all add: childrenOf_def exampleAssigned_def exampleEngine_eq)
  have d: "(''a'', ''p'') \<in> (childRel exampleAssigned)\<^sup>+"
          "(''c'', ''p'') \<in> (childRel exampleAssigned)\<^sup>+"
          "(''b'', ''p'') \<notin> (childRel exampleAssigned)\<^sup>+"
    by (subst trancl_childRel_unfold, simp add: ch trancl_childRel_leaf)+
  have s: "\<not> searchActive exampleAssigned"
    by (simp add: exampleAssigned_def exampleEngine_eq)
  have b: "assignments exampleAssigned ''b'' = Some False"
    by (simp add: exampleAssigned_def)
  from toggleFull_consolidates [OF v f, of "''p''" True] v f d s b show ?thesis
    by auto
qed

section \<open>What the memoised resolver and the selection loops leave unchanged\<close>

lemma getStateBase_frame:
  "getStateBase n E i = Some (st, E') \<Longrightarrow> \<exists>c. E' = E\<lparr> stateCache := c \<rparr>"
  "countCheckedBase n E cs k = Some (res, E') \<Longrightarrow> \<exists>c. E' = E\<lparr> stateCache := c \<rparr>"
proof (induction n E i and n E cs k arbitrary: st E' and res E'
       rule: getStateBase_countCheckedBase.induct)
  case (1 E i)
  then show ?case by simp
next
  case (2 n E i)
  show ?case
  proof (cases "stateCache E i")
    case (Some s)
    with "2.prems" have "E' = E" by simp
    then have "E' = E\<lparr> stateCache := stateCache E \<rparr>" by simp
    then show ?thesis by blast
  next
    case None
    show ?thesis
    proof (cases "length (childrenOf E i) = 0")
      case True
      with None "2.prems" show ?thesis by (auto split: option.splits)
    next
      case False
      with None "2.prems" obtain r E1 where
        c: "countCheckedBase n E (childrenOf E i) 0 = Some (r, E1)"
        by (cases "countCheckedBase n E (childrenOf E i) 0") auto
      with None False "2.prems" have e: "E' = E1\<lparr> stateCache := (stateCache E1)(i \<mapsto> st) \<rparr>"
        by (cases r) auto
      from "2.IH" [OF None False c] obtain c1 where "E1 = E\<lparr> stateCache := c1 \<rparr>" by blast
      with e have "E' = E\<lparr> stateCache := c1(i \<mapsto> st) \<rparr>" by simp
      then show ?thesis by blast
    qed
  qed
next
  case (3 n E k)
  then have "E' = E\<lparr> stateCache := stateCache E \<rparr>" by simp
  then show ?case by blast
next
  case (4 n E c cs k)
  from "4.prems" obtain s E1 where g: "getStateBase n E c = Some (s, E1)"
    by (auto split: option.splits)
  from "4.IH"(1) [OF g] obtain c1 where E1: "E1 = E\<lparr> stateCache := c1 \<rparr>" by blast
  show ?case
  proof (cases "s = Indeterminate")
    case True
    with g "4.prems" have "E' = E1" by simp
    with E1 show ?thesis by blast
  next
    case False
    with g "4.prems" have
      "countCheckedBase n E1 cs (if s = Checked then k + 1 else k) = Some (res, E')" by simp
    from "4.IH"(2) [OF g refl False this] E1 show ?thesis by auto
  qed
qed

lemma collectChecked_frame:
  "collectChecked n E ids acc = Some (res, E') \<Longrightarrow> \<exists>c. E' = E\<lparr> stateCache := c \<rparr>"
proof (induction n E ids acc arbitrary: res E' rule: collectChecked.induct)
  case (1 n E result)
  then have "E' = E\<lparr> stateCache := stateCache E \<rparr>" by simp
  then show ?case by blast
next
  case (2 n E i ids result)
  show ?case
  proof (cases "i \<in> set (folderSet E)")
    case True
    with 2 show ?thesis by simp
  next
    case False
    with "2.prems" obtain s E1 where g: "getStateBase n E i = Some (s, E1)"
      and r: "collectChecked n E1 ids (if s = Checked then result @ [i] else result) = Some (res, E')"
      by (auto split: option.splits)
    from getStateBase_frame(1) [OF g] obtain c1 where "E1 = E\<lparr> stateCache := c1 \<rparr>" by blast
    with "2.IH"(1) [OF False g refl r] show ?thesis by auto
  qed
qed

lemma collectChecked_result:
  "collectChecked n E ids acc = Some (res, E') \<Longrightarrow>
     set res \<subseteq> set acc \<union> (set ids - set (folderSet E))"
proof (induction n E ids acc arbitrary: res E' rule: collectChecked.induct)
  case (1 n E result)
  then show ?case by auto
next
  case (2 n E i ids result)
  show ?case
  proof (cases "i \<in> set (folderSet E)")
    case True
    with 2 show ?thesis by auto
  next
    case False
    with "2.prems" obtain s E1 where g: "getStateBase n E i = Some (s, E1)"
      and r: "collectChecked n E1 ids (if s = Checked then result @ [i] else result) = Some (res, E')"
      by (auto split: option.splits)
    from getStateBase_frame(1) [OF g] obtain c1 where "E1 = E\<lparr> stateCache := c1 \<rparr>" by blast
    then have "folderSet E1 = folderSet E" by simp
    with "2.IH"(1) [OF False g refl r] False show ?thesis by (auto split: if_splits)
  qed
qed

lemma getAllChecked_frame:
  assumes "getAllChecked n E = Some (res, E')"
  shows "\<exists>c. E' = E\<lparr> stateCache := c, allCheckedCache := res,
                       allCheckedCacheVersion := selectionVersion E \<rparr>"
proof (cases "allCheckedCacheVersion E = selectionVersion E")
  case True
  with assms have "E' = E" and "res = allCheckedCache E" by (auto simp: getAllChecked_def)
  with True have "E' = E\<lparr> stateCache := stateCache E, allCheckedCache := res,
                           allCheckedCacheVersion := selectionVersion E \<rparr>" by simp
  then show ?thesis by blast
next
  case False
  with assms obtain E1 where
    c: "collectChecked n E (map fst (childrenMap E)) [] = Some (res, E1)"
    and e: "E' = E1\<lparr> allCheckedCache := res, allCheckedCacheVersion := selectionVersion E1 \<rparr>"
    by (auto simp: getAllChecked_def split: option.splits)
  from collectChecked_frame [OF c] obtain c1 where "E1 = E\<lparr> stateCache := c1 \<rparr>" by blast
  with e show ?thesis by auto
qed

section \<open>Search-mode toggling\<close>

lemma visibleChildrenOf_assignments_update [simp]:
  "visibleChildrenOf (E\<lparr> assignments := a \<rparr>) = visibleChildrenOf E"
  by (simp add: visibleChildrenOf_def fun_eq_iff)

lemma visibleRel_assignments_update [simp]:
  "visibleRel (E\<lparr> assignments := a \<rparr>) = visibleRel E"
  by (simp add: visibleRel_def)

lemma visibleLeavesUnder_assignments_update [simp]:
  "visibleLeavesUnder (E\<lparr> assignments := a \<rparr>) = visibleLeavesUnder E"
  by (simp add: visibleLeavesUnder_def fun_eq_iff)

lemma rtrancl_visibleRel_iff:
  "(x, i) \<in> (visibleRel E)\<^sup>* \<longleftrightarrow>
     x = i \<or> (\<exists>c \<in> set (visibleChildrenOf E i). (x, c) \<in> (visibleRel E)\<^sup>*)"
proof
  assume "(x, i) \<in> (visibleRel E)\<^sup>*"
  then show "x = i \<or> (\<exists>c \<in> set (visibleChildrenOf E i). (x, c) \<in> (visibleRel E)\<^sup>*)"
  proof (cases rule: rtrancl.cases)
    case rtrancl_refl
    then show ?thesis by simp
  next
    case (rtrancl_into_rtrancl b)
    then show ?thesis by (auto simp: visibleRel_def)
  qed
next
  assume "x = i \<or> (\<exists>c \<in> set (visibleChildrenOf E i). (x, c) \<in> (visibleRel E)\<^sup>*)"
  then show "(x, i) \<in> (visibleRel E)\<^sup>*"
  proof
    assume "x = i"
    then show ?thesis by simp
  next
    assume "\<exists>c \<in> set (visibleChildrenOf E i). (x, c) \<in> (visibleRel E)\<^sup>*"
    then obtain c where "(x, c) \<in> (visibleRel E)\<^sup>*" and "(c, i) \<in> visibleRel E"
      by (auto simp: visibleRel_def)
    then show ?thesis by (rule rtrancl_into_rtrancl)
  qed
qed

lemma visibleLeavesUnder_leaf:
  "visibleChildrenOf E i = [] \<Longrightarrow>
     visibleLeavesUnder E i = (if i \<in> set (folderSet E) then {} else {i})"
  unfolding visibleLeavesUnder_def
  by (subst rtrancl_visibleRel_iff) auto

lemma visibleLeavesUnder_inner:
  "visibleChildrenOf E i \<noteq> [] \<Longrightarrow>
     visibleLeavesUnder E i = (\<Union>c \<in> set (visibleChildrenOf E i). visibleLeavesUnder E c)"
  unfolding visibleLeavesUnder_def
  by (subst rtrancl_visibleRel_iff) auto

text \<open>
  The effect of the stack loop: exactly the visible structural leaves under
  the stacked nodes are assigned; nothing else of the state changes.
\<close>

lemma forEachVisibleLeafUnder_effect:
  "forEachVisibleLeafUnder n E stack checked = Some E' \<Longrightarrow>
     E' = E\<lparr> assignments :=
               (\<lambda>x. if \<exists>s \<in> set stack. x \<in> visibleLeavesUnder E s then Some checked
                    else assignments E x) \<rparr>"
proof (induction n E stack checked arbitrary: E' rule: forEachVisibleLeafUnder.induct)
  case (1 n E checked)
  then show ?case by simp
next
  case (2 E cur stack checked)
  then show ?case by simp
next
  case (3 n E cur stack checked)
  show ?case
  proof (cases "length (visibleChildrenOf E cur) = 0")
    case True
    then have leaf: "visibleChildrenOf E cur = []" by simp
    show ?thesis
    proof (cases "cur \<in> set (folderSet E)")
      case True
      with leaf "3.prems" have "forEachVisibleLeafUnder n E stack checked = Some E'" by simp
      from "3.IH"(2) [OF \<open>length (visibleChildrenOf E cur) = 0\<close> _ this] True
      have "E' = E\<lparr> assignments :=
               (\<lambda>x. if \<exists>s \<in> set stack. x \<in> visibleLeavesUnder E s then Some checked
                    else assignments E x) \<rparr>" by simp
      moreover have "visibleLeavesUnder E cur = {}"
        using leaf True by (simp add: visibleLeavesUnder_leaf)
      ultimately show ?thesis by simp
    next
      case False
      let ?E1 = "E\<lparr> assignments := (assignments E)(cur \<mapsto> checked) \<rparr>"
      from False leaf "3.prems"
      have "forEachVisibleLeafUnder n ?E1 stack checked = Some E'" by simp
      from "3.IH"(1) [OF \<open>length (visibleChildrenOf E cur) = 0\<close> False this]
      have e: "E' = E\<lparr> assignments :=
               (\<lambda>x. if \<exists>s \<in> set stack. x \<in> visibleLeavesUnder E s then Some checked
                    else ((assignments E)(cur \<mapsto> checked)) x) \<rparr>"
        by (simp cong: if_cong)
      have l: "visibleLeavesUnder E cur = {cur}"
        using leaf False by (simp add: visibleLeavesUnder_leaf)
      have "(\<lambda>x. if \<exists>s \<in> set stack. x \<in> visibleLeavesUnder E s then Some checked
                 else ((assignments E)(cur \<mapsto> checked)) x) =
            (\<lambda>x. if \<exists>s \<in> set (cur # stack). x \<in> visibleLeavesUnder E s then Some checked
                 else assignments E x)"
        by (auto simp: fun_eq_iff l)
      with e show ?thesis by simp
    qed
  next
    case False
    then have inner: "visibleChildrenOf E cur \<noteq> []" by simp
    from False "3.prems"
    have "forEachVisibleLeafUnder n E (rev (visibleChildrenOf E cur) @ stack) checked = Some E'"
      by simp
    from "3.IH"(3) [OF False this]
    have e: "E' = E\<lparr> assignments :=
               (\<lambda>x. if \<exists>s \<in> set (rev (visibleChildrenOf E cur) @ stack).
                          x \<in> visibleLeavesUnder E s then Some checked
                    else assignments E x) \<rparr>" .
    have "(\<lambda>x. if \<exists>s \<in> set (rev (visibleChildrenOf E cur) @ stack).
                          x \<in> visibleLeavesUnder E s then Some checked
                    else assignments E x) =
          (\<lambda>x. if \<exists>s \<in> set (cur # stack). x \<in> visibleLeavesUnder E s then Some checked
                 else assignments E x)"
      by (auto simp: fun_eq_iff visibleLeavesUnder_inner [OF inner])
    with e show ?thesis by simp
  qed
qed

lemma exampleSearch_reached:
  "setSearchQuery (\<lambda>s. s) 13 ''alp'' exampleAssigned = Some exampleSearch"
  by (simp add: setSearchQuery_def exampleSearch_def exampleAssigned_def exampleEngine_eq Let_def
        str_includes_def set_add_def restrictChildren_def childrenOf_def callObservers_def
        sublist_code prefix_code)

lemma exampleSearchB_reached:
  "setSearchQuery (\<lambda>s. s) 13 ''bet'' (subscribe 7 exampleAssigned) = Some exampleSearchB"
  by (simp add: setSearchQuery_def exampleSearchB_def exampleAssigned_def exampleEngine_eq Let_def
        str_includes_def set_add_def restrictChildren_def childrenOf_def callObservers_def
        subscribe_def sublist_code prefix_code)

lemma depthOk_sub:
  assumes "\<And>j. set (ch' j) \<subseteq> set (ch j)"
  shows "depthOk r ch i \<Longrightarrow> depthOk r ch' i"
proof (induction r arbitrary: i)
  case 0
  then show ?case by simp
next
  case (Suc r)
  from Suc.prems have "\<forall>c \<in> set (ch i). depthOk r ch c" by (simp add: list_all_iff)
  with assms [of i] Suc.IH have "\<forall>c \<in> set (ch' i). depthOk r ch' c" by blast
  then show ?case by (simp add: list_all_iff)
qed

lemma overlayOk_entry:
  "overlayOk E \<Longrightarrow> visibleChildrenMap E j = Some cs \<Longrightarrow>
     cs = filter (\<lambda>c. c \<in> set (visibleSet E)) (childrenOf E j)"
  unfolding overlayOk_def by blast

lemma overlayOk_children:
  assumes "overlayOk E"
  shows "visibleChildrenOf E j = [] \<or>
         visibleChildrenOf E j = filter (\<lambda>c. c \<in> set (visibleSet E)) (childrenOf E j)"
proof (cases "visibleChildrenMap E j")
  case None
  then show ?thesis by (simp add: visibleChildrenOf_def)
next
  case (Some cs)
  from overlayOk_entry [OF assms Some] Some show ?thesis by (simp add: visibleChildrenOf_def)
qed

lemma overlayOk_sub: "overlayOk E \<Longrightarrow> set (visibleChildrenOf E j) \<subseteq> set (childrenOf E j)"
  using overlayOk_children [of E j] by auto

lemma overlayOk_visible:
  "overlayOk E \<Longrightarrow> c \<in> set (visibleChildrenOf E j) \<Longrightarrow> c \<in> set (visibleSet E)"
  using overlayOk_children [of E j] by auto

lemma validForest_visible_depthOk:
  assumes "validForest E" and "overlayOk E"
  shows "depthOk (Suc (length (childrenMap E))) (visibleChildrenOf E) i"
  by (rule depthOk_sub [OF overlayOk_sub [OF assms(2)] validForest_depthOk [OF assms(1)]])

text \<open>
  The stack loop works off a prefix of the stack in a number of iterations
  that does not depend on the rest of the stack.
\<close>

lemma forEachVisibleLeafUnder_prefix:
  "\<forall>s \<in> set xs. depthOk r (visibleChildrenOf E) s \<Longrightarrow>
     \<exists>k a. \<forall>m ys. forEachVisibleLeafUnder (k + m) E (xs @ ys) checked =
                    forEachVisibleLeafUnder m (E\<lparr> assignments := a \<rparr>) ys checked"
proof (induction r arbitrary: xs E)
  case 0
  then have "xs = []" by (cases xs) auto
  then have "\<forall>m ys. forEachVisibleLeafUnder (0 + m) E (xs @ ys) checked =
                 forEachVisibleLeafUnder m (E\<lparr> assignments := assignments E \<rparr>) ys checked"
    by simp
  then show ?case by blast
next
  case (Suc r)
  from Suc.prems show ?case
  proof (induction xs arbitrary: E)
    case Nil
    have "\<forall>m ys. forEachVisibleLeafUnder (0 + m) E ([] @ ys) checked =
                 forEachVisibleLeafUnder m (E\<lparr> assignments := assignments E \<rparr>) ys checked"
      by simp
    then show ?case by blast
  next
    case (Cons cur rest)
    show ?case
    proof (cases "visibleChildrenOf E cur = []")
      case True
      define E1 where "E1 = (if cur \<notin> set (folderSet E)
                             then E\<lparr> assignments := (assignments E)(cur \<mapsto> checked) \<rparr> else E)"
      have E1: "E1 = E\<lparr> assignments := assignments E1 \<rparr>" by (simp add: E1_def)
      have "visibleChildrenOf E1 = visibleChildrenOf E" by (simp add: E1_def)
      with Cons.prems have "\<forall>s \<in> set rest. depthOk (Suc r) (visibleChildrenOf E1) s" by simp
      from Cons.IH [OF this] obtain k a where
        k: "\<And>m ys. forEachVisibleLeafUnder (k + m) E1 (rest @ ys) checked =
                     forEachVisibleLeafUnder m (E1\<lparr> assignments := a \<rparr>) ys checked"
        by blast
      have e: "E1\<lparr> assignments := a \<rparr> = E\<lparr> assignments := a \<rparr>" by (subst E1) simp
      have "\<forall>m ys. forEachVisibleLeafUnder (Suc k + m) E ((cur # rest) @ ys) checked =
                 forEachVisibleLeafUnder m (E\<lparr> assignments := a \<rparr>) ys checked"
      proof (intro allI)
        fix m ys
        have "forEachVisibleLeafUnder (Suc k + m) E ((cur # rest) @ ys) checked =
              forEachVisibleLeafUnder (k + m) E1 (rest @ ys) checked"
          using True by (simp add: E1_def)
        also have "\<dots> = forEachVisibleLeafUnder m (E\<lparr> assignments := a \<rparr>) ys checked"
          unfolding k e ..
        finally show "forEachVisibleLeafUnder (Suc k + m) E ((cur # rest) @ ys) checked =
                 forEachVisibleLeafUnder m (E\<lparr> assignments := a \<rparr>) ys checked" .
      qed
      then show ?thesis by blast
    next
      case False
      from Cons.prems have "depthOk (Suc r) (visibleChildrenOf E) cur" by simp
      then have "\<forall>s \<in> set (rev (visibleChildrenOf E cur)). depthOk r (visibleChildrenOf E) s"
        by (simp add: list_all_iff)
      from Suc.IH [OF this] obtain k1 a1 where
        k1: "\<And>m ys. forEachVisibleLeafUnder (k1 + m) E (rev (visibleChildrenOf E cur) @ ys) checked =
                     forEachVisibleLeafUnder m (E\<lparr> assignments := a1 \<rparr>) ys checked"
        by blast
      from Cons.prems
      have "\<forall>s \<in> set rest. depthOk (Suc r) (visibleChildrenOf (E\<lparr> assignments := a1 \<rparr>)) s"
        by simp
      from Cons.IH [OF this] obtain k2 a2 where
        k2: "\<And>m ys. forEachVisibleLeafUnder (k2 + m) (E\<lparr> assignments := a1 \<rparr>) (rest @ ys) checked =
                     forEachVisibleLeafUnder m (E\<lparr> assignments := a1, assignments := a2 \<rparr>) ys checked"
        by blast
      have "\<forall>m ys. forEachVisibleLeafUnder (Suc (k1 + k2) + m) E ((cur # rest) @ ys) checked =
                 forEachVisibleLeafUnder m (E\<lparr> assignments := a2 \<rparr>) ys checked"
      proof (intro allI)
        fix m ys
        have "forEachVisibleLeafUnder (Suc (k1 + k2) + m) E ((cur # rest) @ ys) checked =
              forEachVisibleLeafUnder (k1 + (k2 + m)) E
                (rev (visibleChildrenOf E cur) @ (rest @ ys)) checked"
          using False by (simp add: add.assoc)
        also have "\<dots> = forEachVisibleLeafUnder (k2 + m) (E\<lparr> assignments := a1 \<rparr>) (rest @ ys) checked"
          by (rule k1)
        also have "\<dots> = forEachVisibleLeafUnder m (E\<lparr> assignments := a2 \<rparr>) ys checked"
          using k2 [of m ys] by simp
        finally show "forEachVisibleLeafUnder (Suc (k1 + k2) + m) E ((cur # rest) @ ys) checked =
                 forEachVisibleLeafUnder m (E\<lparr> assignments := a2 \<rparr>) ys checked" .
      qed
      then show ?thesis by blast
    qed
  qed
qed

lemma forEachVisibleLeafUnder_total:
  assumes "\<forall>s \<in> set xs. depthOk r (visibleChildrenOf E) s"
  shows "\<exists>k. \<forall>n \<ge> k. \<exists>E'. forEachVisibleLeafUnder n E xs checked = Some E'"
proof -
  from forEachVisibleLeafUnder_prefix [OF assms] obtain k a where
    k: "\<And>m ys. forEachVisibleLeafUnder (k + m) E (xs @ ys) checked =
                 forEachVisibleLeafUnder m (E\<lparr> assignments := a \<rparr>) ys checked"
    by blast
  have "\<forall>n \<ge> k. \<exists>E'. forEachVisibleLeafUnder n E xs checked = Some E'"
  proof (intro allI impI)
    fix n :: nat
    assume "k \<le> n"
    then have "n = k + (n - k)" by simp
    with k [of "n - k" "[]"] show "\<exists>E'. forEachVisibleLeafUnder n E xs checked = Some E'"
      by (metis append_Nil2 forEachVisibleLeafUnder.simps(1))
  qed
  then show ?thesis by blast
qed

lemma toggle_search_folder:
  assumes "validForest E" and "overlayOk E" and "searchActive E" and "i \<in> set (folderSet E)"
  shows "\<exists>k. \<forall>fuel \<ge> k. toggle fuel i checked E =
           Some (notify False (E\<lparr> assignments :=
                   (\<lambda>x. if x \<in> visibleLeavesUnder E i then Some checked
                        else assignments E x) \<rparr>))"
proof -
  have "\<forall>s \<in> set [i]. depthOk (Suc (length (childrenMap E))) (visibleChildrenOf E) s"
    using validForest_visible_depthOk [OF assms(1,2)] by simp
  from forEachVisibleLeafUnder_total [OF this] obtain k where
    k: "\<And>n. k \<le> n \<Longrightarrow> \<exists>E'. forEachVisibleLeafUnder n E [i] checked = Some E'" by blast
  have "\<forall>fuel \<ge> k. toggle fuel i checked E =
           Some (notify False (E\<lparr> assignments :=
                   (\<lambda>x. if x \<in> visibleLeavesUnder E i then Some checked
                        else assignments E x) \<rparr>))"
  proof (intro allI impI)
    fix fuel :: nat
    assume "k \<le> fuel"
    from k [OF this] obtain E' where e: "forEachVisibleLeafUnder fuel E [i] checked = Some E'"
      by blast
    from forEachVisibleLeafUnder_effect [OF e]
    have "E' = E\<lparr> assignments :=
                   (\<lambda>x. if x \<in> visibleLeavesUnder E i then Some checked
                        else assignments E x) \<rparr>" by simp
    with e assms(3,4) show "toggle fuel i checked E =
           Some (notify False (E\<lparr> assignments :=
                   (\<lambda>x. if x \<in> visibleLeavesUnder E i then Some checked
                        else assignments E x) \<rparr>))"
      by (simp add: toggle_def toggleVisibleOnly_def)
  qed
  then show ?thesis by blast
qed

lemma nonfolder_no_children:
  assumes "validForest E" and "x \<notin> set (folderSet E)"
  shows "childrenOf E x = []"
proof (cases "map_of (childrenMap E) x")
  case None
  then show ?thesis by (simp add: childrenOf_def)
next
  case (Some cs)
  then have "x \<in> set (map fst (childrenMap E))"
    using map_of_eq_None_iff [of "childrenMap E" x] by simp
  moreover from assms(1)
  have "folderSet E = filter (\<lambda>i. childrenOf E i \<noteq> []) (map fst (childrenMap E))"
    by (simp add: validForest_def)
  ultimately show ?thesis using assms(2) by auto
qed

lemma visibleLeavesUnder_structural:
  assumes "validForest E" and "overlayOk E"
  shows "visibleLeavesUnder E i = {x. (x, i) \<in> (visibleRel E)\<^sup>* \<and> x \<notin> set (folderSet E)}"
proof -
  have "visibleChildrenOf E x = []" if "x \<notin> set (folderSet E)" for x
    using nonfolder_no_children [OF assms(1) that] overlayOk_sub [OF assms(2), of x] by simp
  then show ?thesis by (auto simp: visibleLeavesUnder_def)
qed

lemma visibleLeavesUnder_visible:
  assumes "overlayOk E" and "i \<in> set (folderSet E)" and "x \<in> visibleLeavesUnder E i"
  shows "x \<in> set (visibleSet E)"
proof -
  from assms(3) have r: "(x, i) \<in> (visibleRel E)\<^sup>*" and "x \<notin> set (folderSet E)"
    by (simp_all add: visibleLeavesUnder_def)
  with assms(2) have "x \<noteq> i" by auto
  with r obtain p where "(x, p) \<in> visibleRel E" by (auto elim: converse_rtranclE)
  then show ?thesis using overlayOk_visible [OF assms(1)] by (auto simp: visibleRel_def)
qed

text \<open>
  C3.  With search active, \<open>toggle\<close> on a structural folder \<open>i\<close> returns (for
  every fuel above some bound), sets the assignment of every structural leaf
  that is reachable from \<open>i\<close> through \<open>visibleChildrenMap\<close>, and changes no
  other assignment; in particular the entry of \<open>i\<close> itself and the entries of
  all nodes outside \<open>visibleSet\<close> are as before.
\<close>

theorem toggleVisibleOnly_frame:
  assumes "validForest E" and "overlayOk E" and "searchActive E" and "i \<in> set (folderSet E)"
  shows "\<exists>k. \<forall>fuel \<ge> k. \<exists>E'. toggle fuel i checked E = Some E' \<and>
           (\<forall>x. (x, i) \<in> (visibleRel E)\<^sup>* \<and> x \<notin> set (folderSet E) \<longrightarrow>
                  assignments E' x = Some checked) \<and>
           (\<forall>x. \<not> ((x, i) \<in> (visibleRel E)\<^sup>* \<and> x \<notin> set (folderSet E)) \<longrightarrow>
                  assignments E' x = assignments E x) \<and>
           assignments E' i = assignments E i \<and>
           (\<forall>x. x \<notin> set (visibleSet E) \<longrightarrow> assignments E' x = assignments E x)"
proof -
  from toggle_search_folder [OF assms, of checked] obtain k where
    k: "\<And>fuel. k \<le> fuel \<Longrightarrow> toggle fuel i checked E =
           Some (notify False (E\<lparr> assignments :=
                   (\<lambda>x. if x \<in> visibleLeavesUnder E i then Some checked
                        else assignments E x) \<rparr>))" by blast
  have L: "visibleLeavesUnder E i = {x. (x, i) \<in> (visibleRel E)\<^sup>* \<and> x \<notin> set (folderSet E)}"
    by (rule visibleLeavesUnder_structural [OF assms(1,2)])
  have V: "\<And>x. x \<in> visibleLeavesUnder E i \<Longrightarrow> x \<in> set (visibleSet E)"
    by (rule visibleLeavesUnder_visible [OF assms(2,4)])
  have I: "i \<notin> visibleLeavesUnder E i" using assms(4) by (simp add: L)
  note V = V [unfolded L] and I = I [unfolded L] and k = k [unfolded L]
  show ?thesis
  proof (intro exI [of _ k] allI impI)
    fix fuel :: nat
    assume "k \<le> fuel"
    from k [OF this] I V show "\<exists>E'. toggle fuel i checked E = Some E' \<and>
           (\<forall>x. (x, i) \<in> (visibleRel E)\<^sup>* \<and> x \<notin> set (folderSet E) \<longrightarrow>
                  assignments E' x = Some checked) \<and>
           (\<forall>x. \<not> ((x, i) \<in> (visibleRel E)\<^sup>* \<and> x \<notin> set (folderSet E)) \<longrightarrow>
                  assignments E' x = assignments E x) \<and>
           assignments E' i = assignments E i \<and>
           (\<forall>x. x \<notin> set (visibleSet E) \<longrightarrow> assignments E' x = assignments E x)"
      by (auto simp: L)
  qed
qed

lemma validForest_exampleSearch: "validForest exampleSearch"
proof -
  have "validForest exampleSearch = validForest exampleAssigned"
    by (rule validForest_topology) (simp_all add: exampleSearch_def)
  then show ?thesis by (simp add: validForest_exampleAssigned)
qed

lemma validForest_exampleSearchB: "validForest exampleSearchB"
proof -
  have "validForest exampleSearchB = validForest exampleAssigned"
    by (rule validForest_topology) (simp_all add: exampleSearchB_def)
  then show ?thesis by (simp add: validForest_exampleAssigned)
qed

lemma overlayOk_exampleSearch: "overlayOk exampleSearch"
  by (auto simp: overlayOk_def exampleSearch_def exampleAssigned_def exampleEngine_eq
        childrenOf_def split: if_splits)

lemma overlayOk_exampleSearchB: "overlayOk exampleSearchB"
  by (auto simp: overlayOk_def exampleSearchB_def exampleAssigned_def exampleEngine_eq
        childrenOf_def split: if_splits)

theorem toggleVisibleOnly_frame_witness:
  "validForest exampleSearch \<and> overlayOk exampleSearch \<and> searchActive exampleSearch \<and>
   ''p'' \<in> set (folderSet exampleSearch) \<and>
   (\<exists>k. \<forall>fuel \<ge> k. \<exists>E'. toggle fuel ''p'' True exampleSearch = Some E' \<and>
          assignments E' ''a'' = Some True \<and>
          assignments E' ''p'' = None \<and>
          assignments E' ''c'' = Some True \<and>
          assignments E' ''b'' = Some False)"
proof -
  have s: "searchActive exampleSearch" and f: "''p'' \<in> set (folderSet exampleSearch)"
    and na: "''a'' \<notin> set (folderSet exampleSearch)"
    and h: "''c'' \<notin> set (visibleSet exampleSearch)" "''b'' \<notin> set (visibleSet exampleSearch)"
    and old: "assignments exampleSearch ''p'' = None" "assignments exampleSearch ''c'' = Some True"
             "assignments exampleSearch ''b'' = Some False"
    by (simp_all add: exampleSearch_def exampleAssigned_def exampleEngine_eq)
  have "(''a'', ''p'') \<in> visibleRel exampleSearch"
    by (simp add: visibleRel_def visibleChildrenOf_def exampleSearch_def)
  then have r: "(''a'', ''p'') \<in> (visibleRel exampleSearch)\<^sup>*" by (rule r_into_rtrancl)
  from toggleVisibleOnly_frame [OF validForest_exampleSearch overlayOk_exampleSearch s f, of True]
  obtain k where k: "\<And>fuel. k \<le> fuel \<Longrightarrow> \<exists>E'. toggle fuel ''p'' True exampleSearch = Some E' \<and>
           (\<forall>x. (x, ''p'') \<in> (visibleRel exampleSearch)\<^sup>* \<and> x \<notin> set (folderSet exampleSearch) \<longrightarrow>
                  assignments E' x = Some True) \<and>
           (\<forall>x. \<not> ((x, ''p'') \<in> (visibleRel exampleSearch)\<^sup>* \<and> x \<notin> set (folderSet exampleSearch)) \<longrightarrow>
                  assignments E' x = assignments exampleSearch x) \<and>
           assignments E' ''p'' = assignments exampleSearch ''p'' \<and>
           (\<forall>x. x \<notin> set (visibleSet exampleSearch) \<longrightarrow>
                  assignments E' x = assignments exampleSearch x)"
    by blast
  have "\<forall>fuel \<ge> k. \<exists>E'. toggle fuel ''p'' True exampleSearch = Some E' \<and>
          assignments E' ''a'' = Some True \<and>
          assignments E' ''p'' = None \<and>
          assignments E' ''c'' = Some True \<and>
          assignments E' ''b'' = Some False"
  proof (intro allI impI)
    fix fuel :: nat
    assume "k \<le> fuel"
    from k [OF this] r na h old
    show "\<exists>E'. toggle fuel ''p'' True exampleSearch = Some E' \<and>
          assignments E' ''a'' = Some True \<and>
          assignments E' ''p'' = None \<and>
          assignments E' ''c'' = Some True \<and>
          assignments E' ''b'' = Some False"
      by metis
  qed
  with validForest_exampleSearch overlayOk_exampleSearch s f show ?thesis by blast
qed

lemma notify_False_eq:
  "notify False E =
     E\<lparr> selectionVersion := selectionVersion E + 1, version := version E + 1,
        stateCache := Map.empty, stateCacheFiltered := Map.empty,
        flatCacheVersion := - 1, allCheckedCacheVersion := - 1,
        calls := calls E @ observers E \<rparr>"
  by (simp add: notify_def callObservers_def)

text \<open>
  C10.  With search active, \<open>toggle\<close> on a structural folder that has no
  visible structural leaf below it in \<open>visibleChildrenMap\<close> leaves the
  assignment map as it is; it still increments \<open>selectionVersion\<close> and
  \<open>version\<close>, empties both resolver caches and calls every subscribed
  observer (in subscription order).
\<close>

theorem toggle_folder_without_visible_leaf:
  assumes "validForest E" and "overlayOk E" and "searchActive E" and "f \<in> set (folderSet E)"
    and "visibleLeavesUnder E f = {}"
  shows "\<exists>k. \<forall>fuel \<ge> k. \<exists>E'. toggle fuel f checked E = Some E' \<and>
           assignments E' = assignments E \<and>
           selectionVersion E' = selectionVersion E + 1 \<and>
           version E' = version E + 1 \<and>
           stateCache E' = Map.empty \<and> stateCacheFiltered E' = Map.empty \<and>
           calls E' = calls E @ observers E"
proof -
  from toggle_search_folder [OF assms(1-4), of checked] obtain k where
    k: "\<And>fuel. k \<le> fuel \<Longrightarrow> toggle fuel f checked E =
           Some (notify False (E\<lparr> assignments :=
                   (\<lambda>x. if x \<in> visibleLeavesUnder E f then Some checked
                        else assignments E x) \<rparr>))" by blast
  have "E\<lparr> assignments := (\<lambda>x. if x \<in> visibleLeavesUnder E f then Some checked
                                else assignments E x) \<rparr> = E"
    by (simp add: assms(5))
  with k have t: "\<And>fuel. k \<le> fuel \<Longrightarrow> toggle fuel f checked E = Some (notify False E)"
    by simp
  show ?thesis
  proof (intro exI [of _ k] allI impI)
    fix fuel :: nat
    assume "k \<le> fuel"
    from t [OF this] show "\<exists>E'. toggle fuel f checked E = Some E' \<and>
           assignments E' = assignments E \<and>
           selectionVersion E' = selectionVersion E + 1 \<and>
           version E' = version E + 1 \<and>
           stateCache E' = Map.empty \<and> stateCacheFiltered E' = Map.empty \<and>
           calls E' = calls E @ observers E"
      by (simp add: notify_False_eq)
  qed
qed

theorem toggle_folder_without_visible_leaf_witness:
  "validForest exampleSearchB \<and> overlayOk exampleSearchB \<and> searchActive exampleSearchB \<and>
   ''p'' \<in> set (folderSet exampleSearchB) \<and> visibleLeavesUnder exampleSearchB ''p'' = {} \<and>
   (\<exists>k. \<forall>fuel \<ge> k. \<exists>E'. toggle fuel ''p'' True exampleSearchB = Some E' \<and>
          assignments E' = assignments exampleSearchB \<and>
          selectionVersion E' = 1 \<and> version E' = 2 \<and>
          stateCache E' = Map.empty \<and> stateCacheFiltered E' = Map.empty \<and>
          calls E' = [7, 7])"
proof -
  have s: "searchActive exampleSearchB" and f: "''p'' \<in> set (folderSet exampleSearchB)"
    and v: "selectionVersion exampleSearchB = 0" "version exampleSearchB = 1"
           "calls exampleSearchB = [7]" "observers exampleSearchB = [7]"
    by (simp_all add: exampleSearchB_def exampleAssigned_def exampleEngine_eq)
  have "visibleChildrenOf exampleSearchB ''p'' = []"
    by (simp add: visibleChildrenOf_def exampleSearchB_def)
  with f have l: "visibleLeavesUnder exampleSearchB ''p'' = {}"
    by (simp add: visibleLeavesUnder_leaf)
  from toggle_folder_without_visible_leaf
         [OF validForest_exampleSearchB overlayOk_exampleSearchB s f l, of True]
  have "\<exists>k. \<forall>fuel \<ge> k. \<exists>E'. toggle fuel ''p'' True exampleSearchB = Some E' \<and>
          assignments E' = assignments exampleSearchB \<and>
          selectionVersion E' = 1 \<and> version E' = 2 \<and>
          stateCache E' = Map.empty \<and> stateCacheFiltered E' = Map.empty \<and>
          calls E' = [7, 7]"
    by (simp add: v)
  with validForest_exampleSearchB overlayOk_exampleSearchB s f l show ?thesis by blast
qed

lemma rootOpen_toggle:
  assumes "rootOpen E" and "toggle fuel i checked E = Some E'"
  shows "rootOpen E'"
proof (cases "searchActive E")
  case False
  with assms(2) obtain E2 where
    c: "clearSubtreeAssignments fuel (E\<lparr> assignments := (assignments E)(i \<mapsto> checked) \<rparr>) i = Some E2"
    and e: "E' = notify False E2"
    by (auto simp: toggle_def toggleFull_def split: option.splits)
  from clear_effect(1) [OF c] obtain a where "E2 = E\<lparr> assignments := a \<rparr>" by auto
  with e assms(1) show ?thesis by (simp add: rootOpen_def)
next
  case True
  show ?thesis
  proof (cases "i \<in> set (folderSet E)")
    case False
    with True assms show ?thesis
      by (auto simp: toggle_def toggleVisibleOnly_def rootOpen_def)
  next
    case f: True
    with True assms(2) obtain E2 where
      c: "forEachVisibleLeafUnder fuel E [i] checked = Some E2" and e: "E' = notify False E2"
      by (auto simp: toggle_def toggleVisibleOnly_def split: option.splits)
    from forEachVisibleLeafUnder_effect [OF c] obtain a where "E2 = E\<lparr> assignments := a \<rparr>"
      by auto
    with e assms(1) show ?thesis by (simp add: rootOpen_def)
  qed
qed

lemma rootOpen_setChecked:
  assumes "rootOpen E" and "setChecked fuel ids silent E = Some E'"
  shows "rootOpen E'"
proof -
  from assms(2) obtain ac E1 where g: "getAllChecked fuel E = Some (ac, E1)"
    by (auto simp: setChecked_def Let_def split: option.splits)
  from getAllChecked_frame [OF g] obtain c where
    E1: "E1 = E\<lparr> stateCache := c, allCheckedCache := ac,
                   allCheckedCacheVersion := selectionVersion E \<rparr>" by blast
  from assms(2) g obtain a where "E' = E1 \<or> E' = notify silent (E1\<lparr> assignments := a \<rparr>)"
    by (auto simp: setChecked_def Let_def split: if_splits)
  with E1 assms(1) show ?thesis by (auto simp: rootOpen_def)
qed

lemma rootOpen_applyOperation:
  "rootOpen E \<Longrightarrow> applyOperation nrm fuel op E = Some E' \<Longrightarrow> rootOpen E'"
  by (cases op)
     (auto intro: rootOpen_toggleExpanded rootOpen_collapseAll rootOpen_expandAll
        rootOpen_setExpanded rootOpen_subscribe
        elim: rootOpen_setSearchQuery rootOpen_setMinSearchChars rootOpen_toggle
          rootOpen_setChecked)

lemma rootOpen_runOperations:
  "rootOpen E \<Longrightarrow> runOperations nrm fuel ops E = Some E' \<Longrightarrow> rootOpen E'"
proof (induction ops arbitrary: E)
  case Nil
  then show ?case by simp
next
  case (Cons op ops)
  from Cons.prems(2) obtain E1 where a: "applyOperation nrm fuel op E = Some E1"
    and r: "runOperations nrm fuel ops E1 = Some E'"
    by (auto split: option.splits)
  from Cons.IH [OF rootOpen_applyOperation [OF Cons.prems(1) a] r] show ?case .
qed

lemma folderSet_buildEntry: "set (folderSet E) \<subseteq> set (folderSet (buildEntry E e))"
  by (auto simp: buildEntry_def Let_def)

lemma folderSet_foldl_buildEntry:
  "set (folderSet E) \<subseteq> set (folderSet (foldl buildEntry E data))"
proof (induction data arbitrary: E)
  case Nil
  then show ?case by simp
next
  case (Cons e data)
  from folderSet_buildEntry [of E e] Cons.IH [of "buildEntry E e"] show ?case by auto
qed

lemma folder_entry_in_folderSet:
  assumes "(r, item) \<in> set data" and "children item = Some cs" and "cs \<noteq> []"
  shows "r \<in> set (folderSet (foldl buildEntry E data))"
  using assms(1)
proof (induction data arbitrary: E)
  case Nil
  then show ?case by simp
next
  case (Cons e data)
  show ?case
  proof (cases "e = (r, item)")
    case True
    with assms(2,3) have "r \<in> set (folderSet (buildEntry E e))"
      by (simp add: buildEntry_def Let_def)
    with folderSet_foldl_buildEntry [of "buildEntry E e" data] show ?thesis by auto
  next
    case False
    with Cons.prems have "(r, item) \<in> set data" by simp
    from Cons.IH [OF this] show ?thesis by simp
  qed
qed

lemma rootId_foldl_buildEntry [simp]: "rootId (foldl buildEntry E data) = rootId E"
  by (induction data arbitrary: E) (simp_all add: buildEntry_def Let_def)

lemma rootOpen_newEngine:
  assumes "(case optRootId opts of None \<Rightarrow> ''__root__'' | Some r \<Rightarrow> r, item) \<in> set data"
    and "children item = Some cs" and "cs \<noteq> []"
  shows "rootOpen (newEngine nrm data opts)"
proof -
  define E0 where "E0 = emptyEngine\<lparr>
            rootId := (case optRootId opts of None \<Rightarrow> ''__root__'' | Some r \<Rightarrow> r),
            minSearchChars := (case optMinSearchChars opts of
                                 None \<Rightarrow> 3
                               | Some n \<Rightarrow> if n \<noteq> 0 then n else 3) \<rparr>"
  have r: "rootId E0 = (case optRootId opts of None \<Rightarrow> ''__root__'' | Some r \<Rightarrow> r)"
    by (simp add: E0_def)
  from folder_entry_in_folderSet [OF assms, of E0]
  have "rootId E0 \<in> set (folderSet (foldl buildEntry E0 data))" by (simp add: r)
  then show ?thesis
    unfolding rootOpen_def newEngine_def E0_def [symmetric] Let_def
    by (auto split: option.splits)
qed

section \<open>The walk to the nearest assignment\<close>

lemma findNearestAssignment_cong:
  "assignments E' = assignments E \<Longrightarrow> parentMap E' = parentMap E \<Longrightarrow>
     findNearestAssignment n E' c = findNearestAssignment n E c"
  by (induction n E c rule: findNearestAssignment.induct) (auto split: option.splits nat.splits)

lemma findNearestAssignment_mono:
  "findNearestAssignment n E c = Some r \<Longrightarrow> n \<le> m \<Longrightarrow> findNearestAssignment m E c = Some r"
proof (induction n E c arbitrary: m rule: findNearestAssignment.induct)
  case (1 n E)
  then show ?case by simp
next
  case (2 n E c)
  show ?case
  proof (cases "c = [] \<or> assignments E c \<noteq> None")
    case True
    with "2.prems" show ?thesis by (auto split: option.splits)
  next
    case False
    with "2.prems" obtain n' where n: "n = Suc n'"
      and s: "findNearestAssignment n' E (truthy (parentMap E c)) = Some r"
      by (auto split: nat.splits)
    from "2.prems"(2) n obtain m' where m: "m = Suc m'" and le: "n' \<le> m'" by (cases m) auto
    from False have "c \<noteq> []" and "assignments E c = None" by auto
    from "2.IH" [OF this n s le] False m show ?thesis by auto
  qed
qed

lemma parent_is_parent:
  assumes "validForest E" and "truthy (parentMap E c) = Some p"
  shows "c \<in> set (childrenOf E p)"
proof -
  from assms(2) have "parentMap E c = Some (Some p)"
    by (cases "parentMap E c" rule: truthy.cases) (auto split: if_splits)
  moreover from assms(1) have "parentMap E c =
            (case parentFromChildren E c of
               Some p \<Rightarrow> Some (Some p)
             | None \<Rightarrow> if c = rootId E then Some None else None)"
    by (simp add: validForest_def)
  ultimately have "parentFromChildren E c = Some p" by (auto split: option.splits if_splits)
  then have "(c, p) \<in> set (concat (map (\<lambda>e. map (\<lambda>x. (x, fst e)) (snd e)) (childrenMap E)))"
    unfolding parentFromChildren_def by (rule map_of_SomeD)
  then obtain e where e: "e \<in> set (childrenMap E)" and p: "p = fst e" and c: "c \<in> set (snd e)"
    by auto
  from assms(1) have "distinct (map fst (childrenMap E))" by (simp add: validForest_def)
  with e have "map_of (childrenMap E) (fst e) = Some (snd e)" by simp
  with p c show ?thesis by (simp add: childrenOf_def)
qed

lemma rankOf_pos: "validForest E \<Longrightarrow> 0 < rankOf E i"
  using depthOk_rankOf [of E i] by (cases "rankOf E i") auto

lemma findNearestAssignment_total:
  assumes "validForest E"
  shows "length (childrenMap E) + 2 \<le> n + rankOf E c \<Longrightarrow>
           \<exists>r. findNearestAssignment n E (Some c) = Some r"
proof (induction n arbitrary: c)
  case 0
  with rankOf_bound [OF assms, of c] show ?case by simp
next
  case (Suc n)
  show ?case
  proof (cases "truthy (parentMap E c)")
    case None
    then show ?thesis by (auto split: option.splits)
  next
    case (Some p)
    from rankOf_child [OF assms parent_is_parent [OF assms Some]] Suc.prems
    have "length (childrenMap E) + 2 \<le> n + rankOf E p" by simp
    from Suc.IH [OF this] Some show ?thesis by (auto split: option.splits)
  qed
qed

lemma findNearestAssignment_stable:
  assumes "validForest E" and "length (childrenMap E) + 1 \<le> n"
    and "length (childrenMap E) + 1 \<le> m"
  shows "findNearestAssignment n E (Some c) = findNearestAssignment m E (Some c)"
proof -
  from rankOf_pos [OF assms(1), of c] assms(2,3)
  have "length (childrenMap E) + 2 \<le> n + rankOf E c"
    and "length (childrenMap E) + 2 \<le> m + rankOf E c" by simp_all
  from findNearestAssignment_total [OF assms(1) this(1)]
       findNearestAssignment_total [OF assms(1) this(2)]
  obtain r r' where r: "findNearestAssignment n E (Some c) = Some r"
    and r': "findNearestAssignment m E (Some c) = Some r'" by blast
  show ?thesis
  proof (cases "n \<le> m")
    case True
    from findNearestAssignment_mono [OF r True] r show ?thesis by simp
  next
    case False
    then have "m \<le> n" by simp
    from findNearestAssignment_mono [OF r' this] r' show ?thesis by simp
  qed
qed

lemma resolvedLeaf_eq:
  assumes "validForest E" and "length (childrenMap E) + 1 \<le> n"
  shows "\<exists>forced. findNearestAssignment n E (Some d) = Some forced \<and>
                  resolvedLeaf E d = leafState forced"
proof -
  have "length (childrenMap E) + 1 \<le> fuelBound E" by (simp add: fuelBound_def)
  from findNearestAssignment_stable [OF assms this, of d]
  have e: "findNearestAssignment n E (Some d) = findNearestAssignment (fuelBound E) E (Some d)" .
  from rankOf_pos [OF assms(1), of d] assms(2)
  have "length (childrenMap E) + 2 \<le> n + rankOf E d" by simp
  from findNearestAssignment_total [OF assms(1) this]
  obtain r where "findNearestAssignment n E (Some d) = Some r" by blast
  with e show ?thesis by (simp add: resolvedLeaf_def)
qed

lemma resolvedLeaf_cases: "resolvedLeaf E d = Checked \<or> resolvedLeaf E d = Unchecked"
  by (simp add: resolvedLeaf_def leafState_def split: option.splits)

section \<open>The tri-state of a node from the tri-states of its children\<close>

lemma rtrancl_childRel_iff:
  "(x, i) \<in> (childRel E)\<^sup>* \<longleftrightarrow>
     x = i \<or> (\<exists>c \<in> set (childrenOf E i). (x, c) \<in> (childRel E)\<^sup>*)"
  by (auto simp: rtrancl_eq_or_trancl trancl_childRel_iff [of x i])

lemma leavesUnder_leaf: "childrenOf E i = [] \<Longrightarrow> leavesUnder E i = {i}"
  unfolding leavesUnder_def by (subst rtrancl_childRel_iff) auto

lemma leavesUnder_inner:
  "childrenOf E i \<noteq> [] \<Longrightarrow> leavesUnder E i = (\<Union>c \<in> set (childrenOf E i). leavesUnder E c)"
  unfolding leavesUnder_def by (subst rtrancl_childRel_iff) auto

lemma leavesUnder_nonempty:
  assumes "validForest E"
  shows "leavesUnder E i \<noteq> {}"
proof (induction "rankOf E i" arbitrary: i rule: less_induct)
  case less
  show ?case
  proof (cases "childrenOf E i")
    case Nil
    then show ?thesis by (simp add: leavesUnder_leaf)
  next
    case (Cons c cs)
    then have c: "c \<in> set (childrenOf E i)" by simp
    from less [OF rankOf_child [OF assms c]] have "leavesUnder E c \<noteq> {}" .
    with c Cons show ?thesis by (auto simp: leavesUnder_inner)
  qed
qed

lemma leafDescendants_folder:
  "childrenOf E f \<noteq> [] \<Longrightarrow> leafDescendants E f = leavesUnder E f"
  by (auto simp: leafDescendants_def leavesUnder_def rtrancl_eq_or_trancl)

lemma summaryState_leaf: "childrenOf E i = [] \<Longrightarrow> summaryState E i = resolvedLeaf E i"
  using resolvedLeaf_cases [of E i] by (auto simp: summaryState_def leavesUnder_leaf)

lemma summaryState_Checked:
  "validForest E \<Longrightarrow>
     summaryState E i = Checked \<longleftrightarrow> (\<forall>d \<in> leavesUnder E i. resolvedLeaf E d = Checked)"
  by (simp add: summaryState_def)

lemma summaryState_Unchecked:
  assumes "validForest E"
  shows "summaryState E i = Unchecked \<longleftrightarrow> (\<forall>d \<in> leavesUnder E i. resolvedLeaf E d = Unchecked)"
proof -
  from leavesUnder_nonempty [OF assms, of i] obtain d where "d \<in> leavesUnder E i" by blast
  then show ?thesis by (auto simp: summaryState_def)
qed

lemma summaryState_Indeterminate:
  "summaryState E i = Indeterminate \<longleftrightarrow>
     (\<exists>d \<in> leavesUnder E i. resolvedLeaf E d = Unchecked) \<and>
     (\<exists>d \<in> leavesUnder E i. resolvedLeaf E d = Checked)"
  using resolvedLeaf_cases [of E] by (auto simp: summaryState_def)

lemma length_filter_eq_length: "length (filter P xs) = length xs \<longleftrightarrow> (\<forall>x \<in> set xs. P x)"
proof (induction xs)
  case Nil
  then show ?case by simp
next
  case (Cons x xs)
  have "length (filter P xs) \<le> length xs" by (rule length_filter_le)
  then have "length (filter P xs) \<noteq> Suc (length xs)" by linarith
  with Cons show ?case by auto
qed

text \<open>The decision that the resolver takes at a folder agrees with the specification.\<close>

lemma summaryState_inner_Indeterminate:
  assumes "childrenOf E i \<noteq> []" and "c \<in> set (childrenOf E i)"
    and "summaryState E c = Indeterminate"
  shows "summaryState E i = Indeterminate"
  using assms by (auto simp: summaryState_Indeterminate leavesUnder_inner [OF assms(1)])

lemma summaryState_inner_count:
  assumes "validForest E" and "childrenOf E i \<noteq> []"
    and "\<forall>c \<in> set (childrenOf E i). summaryState E c \<noteq> Indeterminate"
  shows "summaryState E i =
           folderState (length (filter (\<lambda>c. summaryState E c = Checked) (childrenOf E i)))
                       (length (childrenOf E i))"
proof -
  let ?cs = "childrenOf E i"
  let ?k = "length (filter (\<lambda>c. summaryState E c = Checked) ?cs)"
  have L: "leavesUnder E i = (\<Union>c \<in> set ?cs. leavesUnder E c)"
    by (rule leavesUnder_inner [OF assms(2)])
  have two: "summaryState E c = Checked \<or> summaryState E c = Unchecked" if "c \<in> set ?cs" for c
    using assms(3) that by (cases "summaryState E c") auto
  consider (none) "?k = 0" | (all) "?k \<noteq> 0" "?k = length ?cs"
    | (mixed) "?k \<noteq> 0" "?k \<noteq> length ?cs" by blast
  then show ?thesis
  proof cases
    case none
    then have "\<forall>c \<in> set ?cs. summaryState E c = Unchecked"
      using two by (auto simp: filter_empty_conv)
    then have "\<forall>d \<in> leavesUnder E i. resolvedLeaf E d = Unchecked"
      by (auto simp: L summaryState_Unchecked [OF assms(1)])
    then have "summaryState E i = Unchecked" by (simp add: summaryState_Unchecked [OF assms(1)])
    with none show ?thesis by (simp add: folderState_def)
  next
    case all
    then have "\<forall>c \<in> set ?cs. summaryState E c = Checked"
      by (simp add: length_filter_eq_length)
    then have "\<forall>d \<in> leavesUnder E i. resolvedLeaf E d = Checked"
      by (auto simp: L summaryState_Checked [OF assms(1)])
    then have "summaryState E i = Checked" by (simp add: summaryState_Checked [OF assms(1)])
    with all show ?thesis by (simp add: folderState_def)
  next
    case mixed
    from mixed(1) obtain c1 where c1: "c1 \<in> set ?cs" "summaryState E c1 = Checked"
      by (auto simp: filter_empty_conv)
    from mixed(2) obtain c2 where c2: "c2 \<in> set ?cs" "summaryState E c2 \<noteq> Checked"
      by (auto simp: length_filter_eq_length)
    with two have u: "summaryState E c2 = Unchecked" by blast
    from leavesUnder_nonempty [OF assms(1), of c1] obtain d1 where d1: "d1 \<in> leavesUnder E c1"
      by blast
    from leavesUnder_nonempty [OF assms(1), of c2] obtain d2 where d2: "d2 \<in> leavesUnder E c2"
      by blast
    from c1 d1 have "resolvedLeaf E d1 = Checked" by (simp add: summaryState_Checked [OF assms(1)])
    moreover from u d2 have "resolvedLeaf E d2 = Unchecked"
      by (simp add: summaryState_Unchecked [OF assms(1)])
    ultimately have "summaryState E i = Indeterminate"
      using c1(1) c2(1) d1 d2 by (auto simp: summaryState_Indeterminate L)
    with mixed show ?thesis by (simp add: folderState_def)
  qed
qed

section \<open>The memoised resolver computes the specified tri-state\<close>

lemma childrenOf_stateCache_update [simp]:
  "childrenOf (E\<lparr> stateCache := c \<rparr>) = childrenOf E"
  by (rule childrenOf_cong) simp

lemma findNearestAssignment_stateCache_update [simp]:
  "findNearestAssignment n (E\<lparr> stateCache := c \<rparr>) x = findNearestAssignment n E x"
  by (rule findNearestAssignment_cong) simp_all

lemma tableOk_update: "tableOk E c \<Longrightarrow> st = summaryState E i \<Longrightarrow> tableOk E (c(i \<mapsto> st))"
  by (simp add: tableOk_def)

lemma countCheckedBase_correct_step:
  assumes S: "\<forall>c r i. tableOk E0 c \<longrightarrow> depthOk r (childrenOf E0) i \<longrightarrow>
                r + length (childrenMap E0) + 1 \<le> n \<longrightarrow>
                (\<exists>c'. getStateBase n (E0\<lparr> stateCache := c \<rparr>) i =
                        Some (summaryState E0 i, E0\<lparr> stateCache := c' \<rparr>) \<and> tableOk E0 c')"
    and r: "r + length (childrenMap E0) + 1 \<le> n"
  shows "tableOk E0 c \<Longrightarrow> list_all (depthOk r (childrenOf E0)) cs \<Longrightarrow>
           \<exists>c'. tableOk E0 c' \<and>
                countCheckedBase n (E0\<lparr> stateCache := c \<rparr>) cs k =
                  Some (if \<exists>x \<in> set cs. summaryState E0 x = Indeterminate then None
                        else Some (k + length (filter (\<lambda>x. summaryState E0 x = Checked) cs)),
                        E0\<lparr> stateCache := c' \<rparr>)"
proof (induction cs arbitrary: c k)
  case Nil
  have "countCheckedBase n (E0\<lparr> stateCache := c \<rparr>) [] k =
          Some (if \<exists>x \<in> set []. summaryState E0 x = Indeterminate then None
                else Some (k + length (filter (\<lambda>x. summaryState E0 x = Checked) [])),
                E0\<lparr> stateCache := c \<rparr>)"
    by simp
  with Nil.prems(1) show ?case by blast
next
  case (Cons x cs)
  from Cons.prems(2) have dx: "depthOk r (childrenOf E0) x"
    and dcs: "list_all (depthOk r (childrenOf E0)) cs" by simp_all
  from S [rule_format, OF Cons.prems(1) dx r] obtain c1 where
    g: "getStateBase n (E0\<lparr> stateCache := c \<rparr>) x =
          Some (summaryState E0 x, E0\<lparr> stateCache := c1 \<rparr>)"
    and t1: "tableOk E0 c1" by blast
  show ?case
  proof (cases "summaryState E0 x = Indeterminate")
    case True
    with g have "countCheckedBase n (E0\<lparr> stateCache := c \<rparr>) (x # cs) k =
            Some (if \<exists>y \<in> set (x # cs). summaryState E0 y = Indeterminate then None
                  else Some (k + length (filter (\<lambda>y. summaryState E0 y = Checked) (x # cs))),
                  E0\<lparr> stateCache := c1 \<rparr>)"
      by simp
    with t1 show ?thesis by blast
  next
    case False
    define k' where "k' = (if summaryState E0 x = Checked then k + 1 else k)"
    from Cons.IH [OF t1 dcs, of k']
    obtain c' where t': "tableOk E0 c'"
      and cc: "countCheckedBase n (E0\<lparr> stateCache := c1 \<rparr>) cs k' =
               Some (if \<exists>y \<in> set cs. summaryState E0 y = Indeterminate then None
                     else Some (k' + length (filter (\<lambda>y. summaryState E0 y = Checked) cs)),
                     E0\<lparr> stateCache := c' \<rparr>)"
      by blast
    have "countCheckedBase n (E0\<lparr> stateCache := c \<rparr>) (x # cs) k =
            countCheckedBase n (E0\<lparr> stateCache := c1 \<rparr>) cs k'"
      using g False by (simp add: k'_def)
    also have "\<dots> = Some (if \<exists>y \<in> set (x # cs). summaryState E0 y = Indeterminate then None
                  else Some (k + length (filter (\<lambda>y. summaryState E0 y = Checked) (x # cs))),
                  E0\<lparr> stateCache := c' \<rparr>)"
      unfolding cc using False by (simp add: k'_def)
    finally have "countCheckedBase n (E0\<lparr> stateCache := c \<rparr>) (x # cs) k =
            Some (if \<exists>y \<in> set (x # cs). summaryState E0 y = Indeterminate then None
                  else Some (k + length (filter (\<lambda>y. summaryState E0 y = Checked) (x # cs))),
                  E0\<lparr> stateCache := c' \<rparr>)" .
    with t' show ?thesis by blast
  qed
qed

lemma getStateBase_correct:
  assumes v: "validForest E0"
  shows "tableOk E0 c \<Longrightarrow> depthOk r (childrenOf E0) i \<Longrightarrow>
           r + length (childrenMap E0) + 1 \<le> n \<Longrightarrow>
           \<exists>c'. getStateBase n (E0\<lparr> stateCache := c \<rparr>) i =
                   Some (summaryState E0 i, E0\<lparr> stateCache := c' \<rparr>) \<and> tableOk E0 c'"
proof (induction n arbitrary: c r i)
  case 0
  then show ?case by simp
next
  case (Suc n)
  from Suc.prems(2) obtain r' where r': "r = Suc r'"
    and dc: "list_all (depthOk r' (childrenOf E0)) (childrenOf E0 i)"
    by (cases r) auto
  with Suc.prems(3) have fuel: "r' + length (childrenMap E0) + 1 \<le> n" by simp
  show ?case
  proof (cases "c i")
    case (Some st)
    with Suc.prems(1) have "st = summaryState E0 i" by (simp add: tableOk_def)
    with Some have "getStateBase (Suc n) (E0\<lparr> stateCache := c \<rparr>) i =
                      Some (summaryState E0 i, E0\<lparr> stateCache := c \<rparr>)"
      by simp
    with Suc.prems(1) show ?thesis by (intro exI [of _ c] conjI)
  next
    case None
    show ?thesis
    proof (cases "childrenOf E0 i = []")
      case True
      from fuel have "length (childrenMap E0) + 1 \<le> n" by simp
      from resolvedLeaf_eq [OF v this, of i] obtain forced where
        f: "findNearestAssignment n E0 (Some i) = Some forced"
        and l: "resolvedLeaf E0 i = leafState forced" by blast
      from l True have s: "summaryState E0 i = leafState forced" by (simp add: summaryState_leaf)
      have "getStateBase (Suc n) (E0\<lparr> stateCache := c \<rparr>) i =
              Some (summaryState E0 i, E0\<lparr> stateCache := c(i \<mapsto> summaryState E0 i) \<rparr>)"
        using None True f s by (simp del: findNearestAssignment.simps)
      moreover have "tableOk E0 (c(i \<mapsto> summaryState E0 i))"
        by (rule tableOk_update [OF Suc.prems(1) refl])
      ultimately show ?thesis by (intro exI [of _ "c(i \<mapsto> summaryState E0 i)"] conjI)
    next
      case False
      have S: "\<forall>c r i. tableOk E0 c \<longrightarrow> depthOk r (childrenOf E0) i \<longrightarrow>
                r + length (childrenMap E0) + 1 \<le> n \<longrightarrow>
                (\<exists>c'. getStateBase n (E0\<lparr> stateCache := c \<rparr>) i =
                        Some (summaryState E0 i, E0\<lparr> stateCache := c' \<rparr>) \<and> tableOk E0 c')"
        by (intro allI impI) (rule Suc.IH)
      from countCheckedBase_correct_step [OF S fuel Suc.prems(1) dc, where k = 0]
      obtain c1 where t1: "tableOk E0 c1"
        and cc: "countCheckedBase n (E0\<lparr> stateCache := c \<rparr>) (childrenOf E0 i) 0 =
                  Some (if \<exists>x \<in> set (childrenOf E0 i). summaryState E0 x = Indeterminate then None
                        else Some (0 + length (filter (\<lambda>x. summaryState E0 x = Checked)
                                                 (childrenOf E0 i))),
                        E0\<lparr> stateCache := c1 \<rparr>)"
        by (elim exE conjE) (rule that)
      have s: "summaryState E0 i =
                 (if \<exists>x \<in> set (childrenOf E0 i). summaryState E0 x = Indeterminate
                  then Indeterminate
                  else folderState (length (filter (\<lambda>x. summaryState E0 x = Checked)
                                              (childrenOf E0 i)))
                                   (length (childrenOf E0 i)))"
      proof (cases "\<exists>x \<in> set (childrenOf E0 i). summaryState E0 x = Indeterminate")
        case True
        then obtain x where "x \<in> set (childrenOf E0 i)" and "summaryState E0 x = Indeterminate"
          by blast
        from summaryState_inner_Indeterminate [OF False this] True show ?thesis by simp
      next
        case no: False
        then have "\<forall>x \<in> set (childrenOf E0 i). summaryState E0 x \<noteq> Indeterminate" by blast
        from summaryState_inner_count [OF v False this] no show ?thesis by simp
      qed
      have "getStateBase (Suc n) (E0\<lparr> stateCache := c \<rparr>) i =
              Some (summaryState E0 i, E0\<lparr> stateCache := c1(i \<mapsto> summaryState E0 i) \<rparr>)"
      proof (cases "\<exists>x \<in> set (childrenOf E0 i). summaryState E0 x = Indeterminate")
        case True
        with s have "summaryState E0 i = Indeterminate" by simp
        with None False cc True show ?thesis by simp
      next
        case no: False
        with s have "summaryState E0 i =
                 folderState (length (filter (\<lambda>x. summaryState E0 x = Checked) (childrenOf E0 i)))
                                   (length (childrenOf E0 i))" by simp
        with None False cc no show ?thesis by simp
      qed
      moreover have "tableOk E0 (c1(i \<mapsto> summaryState E0 i))"
        by (rule tableOk_update [OF t1 refl])
      ultimately show ?thesis by (intro exI [of _ "c1(i \<mapsto> summaryState E0 i)"] conjI)
    qed
  qed
qed

lemma fuelBound_stateCache_update [simp]: "fuelBound (E\<lparr> stateCache := c \<rparr>) = fuelBound E"
  by (simp add: fuelBound_def)

lemma getStateBase_summary:
  assumes "validForest E" and "tableOk E (stateCache E)" and "fuelBound E \<le> fuel"
  shows "\<exists>c'. getStateBase fuel E i = Some (summaryState E i, E\<lparr> stateCache := c' \<rparr>) \<and>
              tableOk E c'"
proof -
  have "Suc (length (childrenMap E)) + length (childrenMap E) + 1 \<le> fuel"
    using assms(3) by (simp add: fuelBound_def)
  from getStateBase_correct [OF assms(1,2) validForest_depthOk [OF assms(1)] this, of i]
  show ?thesis by simp
qed

lemma cacheCoherent_tableOk:
  assumes "validForest E" and "cacheCoherent E"
  shows "tableOk E (stateCache E)"
  unfolding tableOk_def
proof (intro allI impI)
  fix i st
  assume "stateCache E i = Some st"
  with assms(2) obtain E' where
    g: "getStateBase (fuelBound E) (E\<lparr> stateCache := Map.empty \<rparr>) i = Some (st, E')"
    unfolding cacheCoherent_def by blast
  have "tableOk E Map.empty" by (simp add: tableOk_def)
  moreover have "Suc (length (childrenMap E)) + length (childrenMap E) + 1 \<le> fuelBound E"
    by (simp add: fuelBound_def)
  ultimately obtain c' where
    "getStateBase (fuelBound E) (E\<lparr> stateCache := Map.empty \<rparr>) i =
       Some (summaryState E i, E\<lparr> stateCache := c' \<rparr>)"
    using getStateBase_correct [OF assms(1) _ validForest_depthOk [OF assms(1)], of Map.empty
            "fuelBound E" i]
    by (elim meta_impE exE conjE) simp_all
  with g show "st = summaryState E i" by simp
qed

lemma folder_has_children:
  assumes "validForest E" and "f \<in> set (folderSet E)"
  shows "childrenOf E f \<noteq> []"
proof -
  from assms(1) have "folderSet E = filter (\<lambda>i. childrenOf E i \<noteq> []) (map fst (childrenMap E))"
    by (simp add: validForest_def)
  with assms(2) show ?thesis by auto
qed

lemma leaf_resolves:
  assumes "validForest E" and "cacheCoherent E" and "fuelBound E \<le> fuel"
    and "childrenOf E d = []"
  shows "(\<exists>E'. getStateBase fuel E d = Some (st, E')) \<longleftrightarrow> resolvedLeaf E d = st"
proof -
  from getStateBase_summary [OF assms(1) cacheCoherent_tableOk [OF assms(1,2)] assms(3), of d]
  obtain c' where "getStateBase fuel E d = Some (summaryState E d, E\<lparr> stateCache := c' \<rparr>)"
    by blast
  with assms(4) show ?thesis by (auto simp: summaryState_leaf)
qed

text \<open>
  C1.  In a valid forest, for every assignment state (with a coherent memo
  table) and every structural folder \<open>f\<close>, the full-tree resolver returns;
  its result is \<open>Checked\<close> iff every leaf descendant of \<open>f\<close> resolves
  \<open>Checked\<close>, \<open>Unchecked\<close> iff every leaf descendant resolves
  \<open>Unchecked\<close>, and \<open>Indeterminate\<close> otherwise.  With search inactive,
  \<open>getViewState\<close> is this resolver.
\<close>

theorem getStateBase_folder_tristate:
  assumes "validForest E" and "cacheCoherent E" and "fuelBound E \<le> fuel"
    and "f \<in> set (folderSet E)"
  shows "\<exists>st E'. getStateBase fuel E f = Some (st, E') \<and>
           (\<not> searchActive E \<longrightarrow> getViewState fuel f E = Some (st, E')) \<and>
           (st = Checked \<longleftrightarrow>
              (\<forall>d \<in> leafDescendants E f. \<exists>E''. getStateBase fuel E d = Some (Checked, E''))) \<and>
           (st = Unchecked \<longleftrightarrow>
              (\<forall>d \<in> leafDescendants E f. \<exists>E''. getStateBase fuel E d = Some (Unchecked, E''))) \<and>
           (st = Indeterminate \<longleftrightarrow>
              \<not> (\<forall>d \<in> leafDescendants E f. \<exists>E''. getStateBase fuel E d = Some (Checked, E'')) \<and>
              \<not> (\<forall>d \<in> leafDescendants E f. \<exists>E''. getStateBase fuel E d = Some (Unchecked, E'')))"
proof -
  from getStateBase_summary [OF assms(1) cacheCoherent_tableOk [OF assms(1,2)] assms(3), of f]
  obtain c' where g: "getStateBase fuel E f = Some (summaryState E f, E\<lparr> stateCache := c' \<rparr>)"
    by blast
  have L: "leafDescendants E f = leavesUnder E f"
    by (rule leafDescendants_folder [OF folder_has_children [OF assms(1,4)]])
  have R: "(\<exists>E''. getStateBase fuel E d = Some (st, E'')) \<longleftrightarrow> resolvedLeaf E d = st"
    if "d \<in> leavesUnder E f" for d st
    using that by (intro leaf_resolves [OF assms(1-3)]) (simp add: leavesUnder_def)
  have C: "summaryState E f = Checked \<longleftrightarrow>
             (\<forall>d \<in> leafDescendants E f. \<exists>E''. getStateBase fuel E d = Some (Checked, E''))"
    unfolding L summaryState_Checked [OF assms(1)] using R by blast
  have U: "summaryState E f = Unchecked \<longleftrightarrow>
             (\<forall>d \<in> leafDescendants E f. \<exists>E''. getStateBase fuel E d = Some (Unchecked, E''))"
    unfolding L summaryState_Unchecked [OF assms(1)] using R by blast
  have I: "summaryState E f = Indeterminate \<longleftrightarrow>
             summaryState E f \<noteq> Checked \<and> summaryState E f \<noteq> Unchecked"
    by (cases "summaryState E f") simp_all
  show ?thesis
    unfolding g getViewState_def
    by (intro exI [of _ "summaryState E f"] exI [of _ "E\<lparr> stateCache := c' \<rparr>"] conjI impI)
       (simp_all add: g I C [symmetric] U [symmetric])
qed

lemma validForest_exampleWarm: "validForest exampleWarm"
proof -
  have "validForest exampleWarm = validForest exampleAssigned"
    by (rule validForest_topology) (simp_all add: exampleWarm_def)
  then show ?thesis by (simp add: validForest_exampleAssigned)
qed

lemma cacheCoherent_exampleWarm: "cacheCoherent exampleWarm"
  unfolding cacheCoherent_def
  by (simp add: exampleWarm_def exampleAssigned_def exampleEngine_eq fuelBound_def
        childrenOf_def leafState_def numeral_eq_Suc)

theorem getStateBase_folder_tristate_witness:
  "validForest exampleWarm \<and> cacheCoherent exampleWarm \<and> fuelBound exampleWarm \<le> 13 \<and>
   ''p'' \<in> set (folderSet exampleWarm) \<and>
   (\<exists>E'. getStateBase 13 exampleWarm ''p'' = Some (Indeterminate, E') \<and>
         getViewState 13 ''p'' exampleWarm = Some (Indeterminate, E')) \<and>
   \<not> (\<forall>d \<in> leafDescendants exampleWarm ''p''.
         \<exists>E''. getStateBase 13 exampleWarm d = Some (Checked, E'')) \<and>
   \<not> (\<forall>d \<in> leafDescendants exampleWarm ''p''.
         \<exists>E''. getStateBase 13 exampleWarm d = Some (Unchecked, E''))"
proof -
  have f: "fuelBound exampleWarm \<le> 13" and p: "''p'' \<in> set (folderSet exampleWarm)"
    and s: "\<not> searchActive exampleWarm"
    by (simp_all add: exampleWarm_def exampleAssigned_def exampleEngine_eq fuelBound_def)
  have e: "\<exists>E'. getStateBase 13 exampleWarm ''p'' = Some (Indeterminate, E')"
    by (simp add: exampleWarm_def exampleAssigned_def exampleEngine_eq
          childrenOf_def leafState_def folderState_def numeral_eq_Suc)
  from getStateBase_folder_tristate [OF validForest_exampleWarm cacheCoherent_exampleWarm f p] e s
  have "(\<exists>E'. getStateBase 13 exampleWarm ''p'' = Some (Indeterminate, E') \<and>
         getViewState 13 ''p'' exampleWarm = Some (Indeterminate, E')) \<and>
   \<not> (\<forall>d \<in> leafDescendants exampleWarm ''p''.
         \<exists>E''. getStateBase 13 exampleWarm d = Some (Checked, E'')) \<and>
   \<not> (\<forall>d \<in> leafDescendants exampleWarm ''p''.
         \<exists>E''. getStateBase 13 exampleWarm d = Some (Unchecked, E''))"
    by (elim exE conjE) simp
  with validForest_exampleWarm cacheCoherent_exampleWarm f p show ?thesis by blast
qed

section \<open>Controlled selection\<close>

lemma collectChecked_correct:
  assumes v: "validForest E0" and f: "fuelBound E0 \<le> fuel"
  shows "tableOk E0 c \<Longrightarrow>
           \<exists>c'. collectChecked fuel (E0\<lparr> stateCache := c \<rparr>) ids acc =
                   Some (acc @ filter (\<lambda>i. i \<notin> set (folderSet E0) \<and> summaryState E0 i = Checked) ids,
                         E0\<lparr> stateCache := c' \<rparr>) \<and>
                tableOk E0 c'"
proof (induction ids arbitrary: c acc)
  case Nil
  have "collectChecked fuel (E0\<lparr> stateCache := c \<rparr>) [] acc =
          Some (acc @ filter (\<lambda>i. i \<notin> set (folderSet E0) \<and> summaryState E0 i = Checked) [],
                E0\<lparr> stateCache := c \<rparr>)" by simp
  with Nil show ?case by (intro exI [of _ c] conjI)
next
  case (Cons i ids)
  show ?case
  proof (cases "i \<in> set (folderSet E0)")
    case True
    from Cons.IH [OF Cons.prems, of acc] obtain c' where
      a: "collectChecked fuel (E0\<lparr> stateCache := c \<rparr>) ids acc =
            Some (acc @ filter (\<lambda>i. i \<notin> set (folderSet E0) \<and> summaryState E0 i = Checked) ids,
                  E0\<lparr> stateCache := c' \<rparr>)"
      and t: "tableOk E0 c'" by (elim exE conjE)
    from a True have "collectChecked fuel (E0\<lparr> stateCache := c \<rparr>) (i # ids) acc =
            Some (acc @ filter (\<lambda>i. i \<notin> set (folderSet E0) \<and> summaryState E0 i = Checked) (i # ids),
                  E0\<lparr> stateCache := c' \<rparr>)" by simp
    with t show ?thesis by (intro exI [of _ c'] conjI)
  next
    case False
    from getStateBase_correct [OF v Cons.prems validForest_depthOk [OF v], of fuel i] f
    obtain c1 where g: "getStateBase fuel (E0\<lparr> stateCache := c \<rparr>) i =
                          Some (summaryState E0 i, E0\<lparr> stateCache := c1 \<rparr>)"
      and t1: "tableOk E0 c1"
      by (auto simp: fuelBound_def)
    define acc' where "acc' = (if summaryState E0 i = Checked then acc @ [i] else acc)"
    from Cons.IH [OF t1, of acc'] obtain c' where
      a: "collectChecked fuel (E0\<lparr> stateCache := c1 \<rparr>) ids acc' =
            Some (acc' @ filter (\<lambda>i. i \<notin> set (folderSet E0) \<and> summaryState E0 i = Checked) ids,
                  E0\<lparr> stateCache := c' \<rparr>)"
      and t: "tableOk E0 c'" by (elim exE conjE)
    have "collectChecked fuel (E0\<lparr> stateCache := c \<rparr>) (i # ids) acc =
            collectChecked fuel (E0\<lparr> stateCache := c1 \<rparr>) ids acc'"
      using g False by (simp add: acc'_def)
    also have "\<dots> = Some (acc @ filter (\<lambda>i. i \<notin> set (folderSet E0) \<and> summaryState E0 i = Checked)
                                   (i # ids),
                         E0\<lparr> stateCache := c' \<rparr>)"
      unfolding a using False by (simp add: acc'_def)
    finally show ?thesis using t by (intro exI [of _ c'] conjI)
  qed
qed

lemma getAllChecked_total:
  assumes "validForest E" and "cacheCoherent E" and "fuelBound E \<le> fuel"
    and "allCheckedCacheOk E"
  shows "\<exists>ids c. getAllChecked fuel E =
                    Some (ids, E\<lparr> stateCache := c, allCheckedCache := ids,
                                  allCheckedCacheVersion := selectionVersion E \<rparr>) \<and>
                  (\<forall>i \<in> set ids. i \<notin> set (folderSet E))"
proof (cases "allCheckedCacheVersion E = selectionVersion E")
  case True
  then have "getAllChecked fuel E =
               Some (allCheckedCache E,
                     E\<lparr> stateCache := stateCache E, allCheckedCache := allCheckedCache E,
                        allCheckedCacheVersion := selectionVersion E \<rparr>)"
    by (simp add: getAllChecked_def)
  moreover from True assms(4) have "\<forall>i \<in> set (allCheckedCache E). i \<notin> set (folderSet E)"
    by (simp add: allCheckedCacheOk_def)
  ultimately show ?thesis by (intro exI [of _ "allCheckedCache E"] exI [of _ "stateCache E"] conjI)
next
  case False
  let ?ids = "filter (\<lambda>i. i \<notin> set (folderSet E) \<and> summaryState E i = Checked)
                (map fst (childrenMap E))"
  from collectChecked_correct [OF assms(1,3) cacheCoherent_tableOk [OF assms(1,2)],
         of "map fst (childrenMap E)" "[]"]
  obtain c' where
    "collectChecked fuel E (map fst (childrenMap E)) [] = Some (?ids, E\<lparr> stateCache := c' \<rparr>)"
    by auto
  with False have "getAllChecked fuel E =
                     Some (?ids, E\<lparr> stateCache := c', allCheckedCache := ?ids,
                                   allCheckedCacheVersion := selectionVersion E \<rparr>)"
    by (simp add: getAllChecked_def)
  moreover have "\<forall>i \<in> set ?ids. i \<notin> set (folderSet E)" by simp
  ultimately show ?thesis by (intro exI [of _ ?ids] exI [of _ c'] conjI)
qed

lemma new_Set_eq_of_set_eq:
  "set xs = set ys \<Longrightarrow> setsEqual (new_Set xs) (new_Set ys)"
  by (simp add: setsEqual_iff)

text \<open>
  C5.  Echoing the engine's own state back is a no-op.  \<open>getAllChecked\<close>
  returns a list \<open>ids\<close> and touches nothing but the caches it fills; on the
  state \<open>E1\<close> it leaves, \<open>setChecked ids\<close> returns \<open>E1\<close> itself, whatever
  \<open>silent\<close> is.  \<open>setExpanded (getExpanded E)\<close> returns \<open>E\<close> itself.
  A state that is returned unchanged has the same counters, the same caches
  and the same record of observer calls.
\<close>

theorem echo_is_noop:
  assumes "validForest E" and "cacheCoherent E" and "fuelBound E \<le> fuel"
    and "allCheckedCacheOk E" and "distinct (expanded E)"
  shows "(\<exists>ids c. getAllChecked fuel E =
                    Some (ids, E\<lparr> stateCache := c, allCheckedCache := ids,
                                  allCheckedCacheVersion := selectionVersion E \<rparr>) \<and>
                  setChecked fuel' ids silent
                    (E\<lparr> stateCache := c, allCheckedCache := ids,
                        allCheckedCacheVersion := selectionVersion E \<rparr>) =
                  Some (E\<lparr> stateCache := c, allCheckedCache := ids,
                            allCheckedCacheVersion := selectionVersion E \<rparr>)) \<and>
         setExpanded (getExpanded E) E = E"
proof
  from getAllChecked_total [OF assms(1-4)] obtain ids c where
    g: "getAllChecked fuel E =
          Some (ids, E\<lparr> stateCache := c, allCheckedCache := ids,
                        allCheckedCacheVersion := selectionVersion E \<rparr>)"
    and nf: "\<forall>i \<in> set ids. i \<notin> set (folderSet E)" by (elim exE conjE)
  let ?E1 = "E\<lparr> stateCache := c, allCheckedCache := ids,
                 allCheckedCacheVersion := selectionVersion E \<rparr>"
  have hit: "getAllChecked fuel' ?E1 = Some (ids, ?E1)" by (simp add: getAllChecked_def)
  from nf have "filter (\<lambda>i. i \<notin> set (folderSet ?E1)) ids = ids" by simp
  then have "setsEqual (new_Set (filter (\<lambda>i. i \<notin> set (folderSet ?E1)) ids)) (new_Set ids)"
    by (simp add: new_Set_eq_of_set_eq)
  with hit have "setChecked fuel' ids silent ?E1 = Some ?E1"
    by (simp add: setChecked_def Let_def)
  with g show "\<exists>ids c. getAllChecked fuel E =
                    Some (ids, E\<lparr> stateCache := c, allCheckedCache := ids,
                                  allCheckedCacheVersion := selectionVersion E \<rparr>) \<and>
                  setChecked fuel' ids silent
                    (E\<lparr> stateCache := c, allCheckedCache := ids,
                        allCheckedCacheVersion := selectionVersion E \<rparr>) =
                  Some (E\<lparr> stateCache := c, allCheckedCache := ids,
                            allCheckedCacheVersion := selectionVersion E \<rparr>)"
    by (intro exI [of _ ids] exI [of _ c] conjI)
next
  from assms(5) have "new_Set (expanded E) = expanded E" by (rule new_Set_distinct)
  moreover have "setsEqual (expanded E) (expanded E)" by (simp add: setsEqual_def list_all_iff)
  ultimately show "setExpanded (getExpanded E) E = E"
    by (simp add: setExpanded_def getExpanded_def)
qed

theorem echo_is_noop_witness:
  "validForest exampleWarm \<and> cacheCoherent exampleWarm \<and> fuelBound exampleWarm \<le> 13 \<and>
   allCheckedCacheOk exampleWarm \<and> distinct (expanded exampleWarm) \<and>
   (\<exists>c. getAllChecked 13 exampleWarm =
           Some ([''c''], exampleWarm\<lparr> stateCache := c, allCheckedCache := [''c''],
                                       allCheckedCacheVersion := selectionVersion exampleWarm \<rparr>) \<and>
         setChecked 13 [''c''] False
           (exampleWarm\<lparr> stateCache := c, allCheckedCache := [''c''],
                          allCheckedCacheVersion := selectionVersion exampleWarm \<rparr>) =
         Some (exampleWarm\<lparr> stateCache := c, allCheckedCache := [''c''],
                              allCheckedCacheVersion := selectionVersion exampleWarm \<rparr>)) \<and>
   setExpanded (getExpanded exampleWarm) exampleWarm = exampleWarm"
proof -
  have f: "fuelBound exampleWarm \<le> 13" and a: "allCheckedCacheOk exampleWarm"
    and d: "distinct (expanded exampleWarm)"
    by (simp_all add: exampleWarm_def exampleAssigned_def exampleEngine_eq fuelBound_def
          allCheckedCacheOk_def)
  have e: "\<exists>E1. getAllChecked 13 exampleWarm = Some ([''c''], E1)"
    by (simp add: getAllChecked_def exampleWarm_def exampleAssigned_def exampleEngine_eq
          childrenOf_def leafState_def folderState_def numeral_eq_Suc)
  from echo_is_noop [OF validForest_exampleWarm cacheCoherent_exampleWarm f a d,
         of 13 False] e
  have "(\<exists>c. getAllChecked 13 exampleWarm =
           Some ([''c''], exampleWarm\<lparr> stateCache := c, allCheckedCache := [''c''],
                                       allCheckedCacheVersion := selectionVersion exampleWarm \<rparr>) \<and>
         setChecked 13 [''c''] False
           (exampleWarm\<lparr> stateCache := c, allCheckedCache := [''c''],
                          allCheckedCacheVersion := selectionVersion exampleWarm \<rparr>) =
         Some (exampleWarm\<lparr> stateCache := c, allCheckedCache := [''c''],
                              allCheckedCacheVersion := selectionVersion exampleWarm \<rparr>)) \<and>
   setExpanded (getExpanded exampleWarm) exampleWarm = exampleWarm"
    by (elim exE conjE) auto
  with validForest_exampleWarm cacheCoherent_exampleWarm f a d show ?thesis by blast
qed

lemma foldl_assign_True:
  "foldl (\<lambda>m i. m(i \<mapsto> True)) m0 ns = (\<lambda>i. if i \<in> set ns then Some True else m0 i)"
  by (induction ns arbitrary: m0) (auto simp: fun_eq_iff)

text \<open>
  C9.  \<open>setChecked ids\<close> returns (in a valid forest, with enough fuel).  It
  compares the non-folder members of \<open>ids\<close> with what \<open>getAllChecked\<close>
  returns; when the two sets differ, the assignment map afterwards is exactly
  \<open>i \<mapsto> true\<close> for the members of \<open>ids\<close> that are not structural folders:
  folder ids of the input are ignored, and every earlier entry is gone.
\<close>

theorem setChecked_replaces_assignments:
  assumes "validForest E" and "cacheCoherent E" and "fuelBound E \<le> fuel"
    and "allCheckedCacheOk E"
  shows "\<exists>allChecked E1. getAllChecked fuel E = Some (allChecked, E1) \<and>
           (if setsEqual (new_Set (filter (\<lambda>i. i \<notin> set (folderSet E)) ids)) (new_Set allChecked)
            then setChecked fuel ids silent E = Some E1
            else \<exists>E'. setChecked fuel ids silent E = Some E' \<and>
                   assignments E' =
                     (\<lambda>i. if i \<in> set ids \<and> i \<notin> set (folderSet E) then Some True else None))"
proof -
  from getAllChecked_total [OF assms] obtain ac c where
    g: "getAllChecked fuel E =
          Some (ac, E\<lparr> stateCache := c, allCheckedCache := ac,
                       allCheckedCacheVersion := selectionVersion E \<rparr>)"
    by (elim exE conjE)
  let ?E1 = "E\<lparr> stateCache := c, allCheckedCache := ac,
                 allCheckedCacheVersion := selectionVersion E \<rparr>"
  let ?n = "new_Set (filter (\<lambda>i. i \<notin> set (folderSet E)) ids)"
  show ?thesis
  proof (cases "setsEqual ?n (new_Set ac)")
    case True
    with g have "setChecked fuel ids silent E = Some ?E1" by (simp add: setChecked_def Let_def)
    with g True show ?thesis by (intro exI [of _ ac] exI [of _ ?E1] conjI) simp_all
  next
    case False
    with g have s: "setChecked fuel ids silent E =
                   Some (notify silent (?E1\<lparr> assignments := foldl (\<lambda>m i. m(i \<mapsto> True)) Map.empty ?n \<rparr>))"
      by (simp add: setChecked_def Let_def)
    have "assignments (notify silent (?E1\<lparr> assignments := foldl (\<lambda>m i. m(i \<mapsto> True)) Map.empty ?n \<rparr>)) =
            (\<lambda>i. if i \<in> set ids \<and> i \<notin> set (folderSet E) then Some True else None)"
      by (simp add: foldl_assign_True)
    with s have "\<exists>E'. setChecked fuel ids silent E = Some E' \<and>
                   assignments E' =
                     (\<lambda>i. if i \<in> set ids \<and> i \<notin> set (folderSet E) then Some True else None)"
      by blast
    with g False show ?thesis by (intro exI [of _ ac] exI [of _ ?E1] conjI) simp_all
  qed
qed

lemma validForest_exampleFolderAssigned: "validForest exampleFolderAssigned"
proof -
  have "validForest exampleFolderAssigned = validForest exampleEngine"
    by (rule validForest_topology) (simp_all add: exampleFolderAssigned_def)
  then show ?thesis by (simp add: validForest_exampleEngine)
qed

theorem setChecked_replaces_assignments_witness:
  "validForest exampleFolderAssigned \<and> cacheCoherent exampleFolderAssigned \<and>
   fuelBound exampleFolderAssigned \<le> 13 \<and> allCheckedCacheOk exampleFolderAssigned \<and>
   (\<exists>E1. getAllChecked 13 exampleFolderAssigned = Some ([''a'', ''c''], E1)) \<and>
   \<not> setsEqual (new_Set (filter (\<lambda>i. i \<notin> set (folderSet exampleFolderAssigned))
                             [''p'', ''a'', ''b'']))
                (new_Set [''a'', ''c'']) \<and>
   (\<exists>E'. setChecked 13 [''p'', ''a'', ''b''] False exampleFolderAssigned = Some E' \<and>
         assignments E' ''a'' = Some True \<and> assignments E' ''b'' = Some True \<and>
         assignments E' ''p'' = None \<and> assignments E' ''c'' = None)"
proof -
  have f: "fuelBound exampleFolderAssigned \<le> 13" and a: "allCheckedCacheOk exampleFolderAssigned"
    and c: "cacheCoherent exampleFolderAssigned"
    and fs: "folderSet exampleFolderAssigned = [''__root__'', ''p'']"
    by (simp_all add: exampleFolderAssigned_def exampleEngine_eq fuelBound_def
          allCheckedCacheOk_def cacheCoherent_def)
  have e: "\<exists>E1. getAllChecked 13 exampleFolderAssigned = Some ([''a'', ''c''], E1)"
    by (simp add: getAllChecked_def exampleFolderAssigned_def exampleEngine_eq
          childrenOf_def leafState_def folderState_def numeral_eq_Suc)
  have n: "\<not> setsEqual (new_Set (filter (\<lambda>i. i \<notin> set (folderSet exampleFolderAssigned))
                             [''p'', ''a'', ''b'']))
                (new_Set [''a'', ''c''])"
    by (simp add: fs new_Set_def set_add_def setsEqual_def)
  from setChecked_replaces_assignments [OF validForest_exampleFolderAssigned c f a,
         of "[''p'', ''a'', ''b'']" False] e n
  have "\<exists>E'. setChecked 13 [''p'', ''a'', ''b''] False exampleFolderAssigned = Some E' \<and>
         assignments E' ''a'' = Some True \<and> assignments E' ''b'' = Some True \<and>
         assignments E' ''p'' = None \<and> assignments E' ''c'' = None"
    by (elim exE conjE) (auto simp: fs)
  with validForest_exampleFolderAssigned c f a e n show ?thesis by blast
qed

section \<open>The minimum-search-characters threshold\<close>

text \<open>
  C8.  The constructor takes every non-zero \<open>minSearchChars\<close> option as it
  is, so the option \<open>-1\<close> gives a threshold below 1.  And
  \<open>setMinSearchChars\<close> hands the stored query to \<open>setSearchQuery\<close>, which
  returns at once because the normalised query has not changed: after
  \<open>setSearchQuery("al")\<close> under the default threshold 3, the call
  \<open>setMinSearchChars(2)\<close> stores the threshold 2 and leaves search inactive,
  although the query has two characters.
\<close>

theorem minSearchChars_defects:
  "minSearchChars (newEngine (\<lambda>s. s) exampleData (noOptions\<lparr> optMinSearchChars := Some (- 1) \<rparr>))
     = - 1 \<and>
   (\<exists>E1 E2. setSearchQuery (\<lambda>s. s) 13 ''al'' exampleEngine = Some E1 \<and>
            setMinSearchChars (\<lambda>s. s) 13 2 E1 = Some E2 \<and>
            minSearchChars E2 = 2 \<and> normalizedQuery E2 = ''al'' \<and>
            int (length (normalizedQuery E2)) \<ge> minSearchChars E2 \<and>
            \<not> isSearchActive E2)"
proof
  show "minSearchChars (newEngine (\<lambda>s. s) exampleData (noOptions\<lparr> optMinSearchChars := Some (- 1) \<rparr>))
          = - 1"
    by (simp add: newEngine_def noOptions_def emptyEngine_def exampleData_def buildEntry_def
          set_add_def Let_def)
next
  have "setSearchQuery (\<lambda>s. s) 13 ''al'' exampleEngine =
          Some (callObservers (exampleEngine\<lparr> searchQuery := ''al'', normalizedQuery := ''al'',
                  searchEpoch := 1, version := 1, expandVersion := 1 \<rparr>))"
    by (simp add: setSearchQuery_def exampleEngine_eq Let_def callObservers_def)
  moreover have "setMinSearchChars (\<lambda>s. s) 13 2
                   (callObservers (exampleEngine\<lparr> searchQuery := ''al'', normalizedQuery := ''al'',
                      searchEpoch := 1, version := 1, expandVersion := 1 \<rparr>)) =
                 Some (callObservers (exampleEngine\<lparr> searchQuery := ''al'', normalizedQuery := ''al'',
                      searchEpoch := 1, version := 1, expandVersion := 1, minSearchChars := 2 \<rparr>))"
    by (simp add: setMinSearchChars_def setSearchQuery_def exampleEngine_eq Let_def
          callObservers_def)
  ultimately show "\<exists>E1 E2. setSearchQuery (\<lambda>s. s) 13 ''al'' exampleEngine = Some E1 \<and>
            setMinSearchChars (\<lambda>s. s) 13 2 E1 = Some E2 \<and>
            minSearchChars E2 = 2 \<and> normalizedQuery E2 = ''al'' \<and>
            int (length (normalizedQuery E2)) \<ge> minSearchChars E2 \<and>
            \<not> isSearchActive E2"
    by (simp add: isSearchActive_def callObservers_def exampleEngine_eq)
qed

section \<open>Search activation\<close>

lemma map_fst_parent_pairs:
  "map fst (concat (map (\<lambda>e. map (\<lambda>x. (x, fst e)) (snd e)) cm)) = concat (map snd cm)"
  by (induction cm) (simp_all add: comp_def)

lemma child_has_parent:
  assumes "validForest E" and "c \<in> set (childrenOf E p)"
  shows "parentMap E c = Some (Some p)"
proof -
  from assms(2) obtain cs where m: "map_of (childrenMap E) p = Some cs" and c: "c \<in> set cs"
    by (cases "map_of (childrenMap E) p") (auto simp: childrenOf_def)
  from map_of_SomeD [OF m] c
  have "(c, p) \<in> set (concat (map (\<lambda>e. map (\<lambda>x. (x, fst e)) (snd e)) (childrenMap E)))"
    by force
  moreover from assms(1)
  have "distinct (map fst (concat (map (\<lambda>e. map (\<lambda>x. (x, fst e)) (snd e)) (childrenMap E))))"
    by (simp add: map_fst_parent_pairs validForest_def)
  ultimately have "parentFromChildren E c = Some p"
    unfolding parentFromChildren_def by (rule map_of_is_SomeI [rotated])
  with assms(1) show ?thesis by (simp add: validForest_def)
qed

lemma parent_unique:
  assumes "validForest E" and "c \<in> set (childrenOf E p)" and "c \<in> set (childrenOf E q)"
  shows "p = q"
  using child_has_parent [OF assms(1,2)] child_has_parent [OF assms(1,3)] by simp

lemma ancestors_step:
  assumes "validForest E" and "c \<in> set (childrenOf E p)"
  shows "{a. (c, a) \<in> (childRel E)\<^sup>+} = insert p {a. (p, a) \<in> (childRel E)\<^sup>+}"
proof (intro set_eqI iffI)
  fix a
  assume "a \<in> {a. (c, a) \<in> (childRel E)\<^sup>+}"
  then have "(c, a) \<in> (childRel E)\<^sup>+" by simp
  then obtain q where q: "(c, q) \<in> childRel E" and r: "(q, a) \<in> (childRel E)\<^sup>*"
    by (auto dest: tranclD)
  from q have "c \<in> set (childrenOf E q)" by (simp add: childRel_def)
  from parent_unique [OF assms this] have "q = p" by simp
  with r show "a \<in> insert p {a. (p, a) \<in> (childRel E)\<^sup>+}"
    by (auto simp: rtrancl_eq_or_trancl)
next
  fix a
  assume a: "a \<in> insert p {a. (p, a) \<in> (childRel E)\<^sup>+}"
  from assms(2) have "(c, p) \<in> childRel E" by (simp add: childRel_def)
  with a show "a \<in> {a. (c, a) \<in> (childRel E)\<^sup>+}"
    by (auto intro: trancl_into_trancl2)
qed

lemma addAncestors_total:
  assumes "validForest E"
  shows "length (childrenMap E) + 1 \<le> n + rankOf E c \<Longrightarrow>
           \<exists>vs'. addAncestors n (parentMap E) (parentMap E c) vs = Some vs'"
proof (induction n arbitrary: c vs)
  case 0
  show ?case
  proof (cases "truthy (parentMap E c)")
    case None
    then show ?thesis by simp
  next
    case (Some p)
    from rankOf_child [OF assms parent_is_parent [OF assms Some]] rankOf_bound [OF assms, of p] 0
    show ?thesis by simp
  qed
next
  case (Suc n)
  show ?case
  proof (cases "truthy (parentMap E c)")
    case None
    then show ?thesis by simp
  next
    case (Some p)
    from rankOf_child [OF assms parent_is_parent [OF assms Some]] Suc.prems
    have "length (childrenMap E) + 1 \<le> n + rankOf E p" by simp
    from Suc.IH [OF this, of "set_add p vs"] Some show ?thesis by simp
  qed
qed

lemma addAncestors_set:
  assumes "validForest E" and "[] \<notin> set (folderSet E)"
  shows "addAncestors n (parentMap E) (parentMap E c) vs = Some vs' \<Longrightarrow>
           set vs' = set vs \<union> {a. (c, a) \<in> (childRel E)\<^sup>+}"
proof (induction n arbitrary: c vs)
  case 0
  then have t: "truthy (parentMap E c) = None" by (auto split: option.splits)
  from 0 t have e: "vs' = vs" by simp
  have "{a. (c, a) \<in> (childRel E)\<^sup>+} = {}"
  proof (rule ccontr)
    assume "{a. (c, a) \<in> (childRel E)\<^sup>+} \<noteq> {}"
    then obtain a where "(c, a) \<in> (childRel E)\<^sup>+" by blast
    then obtain q where "(c, q) \<in> childRel E" by (auto dest: tranclD)
    then have q: "c \<in> set (childrenOf E q)" by (simp add: childRel_def)
    then have "childrenOf E q \<noteq> []" by auto
    with assms(1) have "q \<in> set (folderSet E)"
      by (metis nonfolder_no_children)
    with assms(2) have "q \<noteq> []" by auto
    with child_has_parent [OF assms(1) q] t show False by simp
  qed
  with e show ?case by simp
next
  case (Suc n)
  show ?case
  proof (cases "truthy (parentMap E c)")
    case None
    with Suc.prems have e: "vs' = vs" by simp
    have "{a. (c, a) \<in> (childRel E)\<^sup>+} = {}"
    proof (rule ccontr)
      assume "{a. (c, a) \<in> (childRel E)\<^sup>+} \<noteq> {}"
      then obtain a where "(c, a) \<in> (childRel E)\<^sup>+" by blast
      then obtain q where "(c, q) \<in> childRel E" by (auto dest: tranclD)
      then have q: "c \<in> set (childrenOf E q)" by (simp add: childRel_def)
      then have "childrenOf E q \<noteq> []" by auto
      with assms(1) have "q \<in> set (folderSet E)"
        by (metis nonfolder_no_children)
      with assms(2) have "q \<noteq> []" by auto
      with child_has_parent [OF assms(1) q] None show False by simp
    qed
    with e show ?thesis by simp
  next
    case (Some p)
    with Suc.prems have "addAncestors n (parentMap E) (parentMap E p) (set_add p vs) = Some vs'"
      by simp
    from Suc.IH [OF this] have "set vs' = insert p (set vs) \<union> {a. (p, a) \<in> (childRel E)\<^sup>+}"
      by simp
    with ancestors_step [OF assms(1) parent_is_parent [OF assms(1) Some]] show ?thesis by auto
  qed
qed

lemma rankOf_le_bound: "validForest E \<Longrightarrow> length (childrenMap E) + 1 \<le> fuelBound E + rankOf E c"
  by (simp add: fuelBound_def)

lemma addMatches_total:
  assumes "validForest E" and "length (childrenMap E) + 1 \<le> n"
  shows "\<exists>vs'. addMatches n (parentMap E) matches vs = Some vs'"
proof (induction matches arbitrary: vs)
  case Nil
  then show ?case by simp
next
  case (Cons leaf matches)
  from assms(2) have "length (childrenMap E) + 1 \<le> n + rankOf E leaf" by simp
  from addAncestors_total [OF assms(1) this, of "set_add leaf vs"]
  obtain vs1 where a: "addAncestors n (parentMap E) (parentMap E leaf) (set_add leaf vs) = Some vs1"
    by blast
  from Cons [of vs1] a show ?case by simp
qed

lemma addMatches_set:
  assumes "validForest E" and "[] \<notin> set (folderSet E)"
  shows "addMatches n (parentMap E) matches vs = Some vs' \<Longrightarrow>
           set vs' = set vs \<union> set matches \<union> {a. \<exists>l \<in> set matches. (l, a) \<in> (childRel E)\<^sup>+}"
proof (induction matches arbitrary: vs)
  case Nil
  then show ?case by simp
next
  case (Cons leaf matches)
  from Cons.prems obtain vs1 where
    a: "addAncestors n (parentMap E) (parentMap E leaf) (set_add leaf vs) = Some vs1"
    and m: "addMatches n (parentMap E) matches vs1 = Some vs'"
    by (auto split: option.splits)
  from addAncestors_set [OF assms a]
  have "set vs1 = insert leaf (set vs) \<union> {a. (leaf, a) \<in> (childRel E)\<^sup>+}" by simp
  with Cons.IH [OF m] show ?case by auto
qed

lemma restrictChildren_foldl:
  "foldl (\<lambda>m i. let restricted = filter P (ch i)
                  in if 0 < length restricted then m(i \<mapsto> restricted) else m) m0 xs =
     (\<lambda>i. if i \<in> set xs \<and> filter P (ch i) \<noteq> [] then Some (filter P (ch i)) else m0 i)"
  by (induction xs arbitrary: m0) (auto simp: fun_eq_iff Let_def)

lemma restrictChildren_eq:
  "restrictChildren E vs =
     (\<lambda>i. if i \<in> set vs \<and> filter (\<lambda>c. c \<in> set vs) (childrenOf E i) \<noteq> []
          then Some (filter (\<lambda>c. c \<in> set vs) (childrenOf E i)) else None)"
  unfolding restrictChildren_def by (rule restrictChildren_foldl)

text \<open>The effect of an activating \<open>setSearchQuery\<close>, as a function of the visible set.\<close>

lemma setSearchQuery_activate:
  assumes "nrm query \<noteq> normalizedQuery E" and "minSearchChars E \<le> int (length (nrm query))"
    and "addMatches fuel (parentMap E)
           (filter (\<lambda>i. str_includes (case normalizedLeafLabel E i of None \<Rightarrow> [] | Some l \<Rightarrow> l)
                                     (nrm query)) (leafIds E)) [] = Some vs0"
  shows "setSearchQuery nrm fuel query E =
           Some (callObservers
             (E\<lparr> searchQuery := query, normalizedQuery := nrm query, searchActive := True,
                 stateCacheFiltered := Map.empty,
                 visibleSet := set_add (rootId E) vs0,
                 visibleChildrenMap := restrictChildren E (set_add (rootId E) vs0),
                 expanded := foldl (\<lambda>s x. set_add x s) (set_add (rootId E) [])
                               (filter (\<lambda>i. i \<in> set (folderSet E)) (set_add (rootId E) vs0)),
                 searchEpoch := searchEpoch E + 1, version := version E + 1,
                 expandVersion := expandVersion E + 1, flatCacheVersion := - 1 \<rparr>))"
proof -
  have "restrictChildren
          (E\<lparr> searchQuery := query, normalizedQuery := nrm query, searchActive := True,
              visibleSet := [], visibleChildrenMap := Map.empty,
              stateCacheFiltered := Map.empty \<rparr>) (set_add (rootId E) vs0) =
        restrictChildren E (set_add (rootId E) vs0)"
    by (simp add: restrictChildren_def childrenOf_def)
  with assms show ?thesis
    by (simp add: setSearchQuery_def Let_def)
qed

text \<open>
  Where no structural folder has the empty string as its id, an activating
  \<open>setSearchQuery\<close> does what the specification says: the visible set is
  the matching leaves, their ancestors and the root; the restricted children
  map holds, for each visible node, its children restricted to the visible
  set, and no entry where that restriction is empty; the expanded set is the
  root and the visible structural folders.
\<close>

lemma setSearchQuery_activation:
  assumes "validForest E" and "[] \<notin> set (folderSet E)" and "fuelBound E \<le> fuel"
    and "nrm query \<noteq> normalizedQuery E"
    and "minSearchChars E \<le> int (length (nrm query))"
  shows "\<exists>E'. setSearchQuery nrm fuel query E = Some E' \<and> searchActive E' \<and>
           set (visibleSet E') = specVisible E (nrm query) \<and>
           visibleChildrenMap E' =
             (\<lambda>i. if i \<in> specVisible E (nrm query) \<and>
                      filter (\<lambda>c. c \<in> specVisible E (nrm query)) (childrenOf E i) \<noteq> []
                   then Some (filter (\<lambda>c. c \<in> specVisible E (nrm query)) (childrenOf E i))
                   else None) \<and>
           set (expanded E') = {rootId E} \<union> (specVisible E (nrm query) \<inter> set (folderSet E))"
proof -
  let ?matches = "filter (\<lambda>i. str_includes (case normalizedLeafLabel E i of None \<Rightarrow> []
                                               | Some l \<Rightarrow> l) (nrm query)) (leafIds E)"
  have m: "set ?matches = matchingLeaves E (nrm query)" by (auto simp: matchingLeaves_def)
  have "length (childrenMap E) + 1 \<le> fuel" using assms(3) by (simp add: fuelBound_def)
  from addMatches_total [OF assms(1) this, of ?matches "[]"]
  obtain vs0 where a: "addMatches fuel (parentMap E) ?matches [] = Some vs0" by blast
  from addMatches_set [OF assms(1,2) a]
  have "set vs0 = set [] \<union> set ?matches \<union> {a. \<exists>l \<in> set ?matches. (l, a) \<in> (childRel E)\<^sup>+}" .
  then have "set vs0 = matchingLeaves E (nrm query) \<union>
                {a. \<exists>l \<in> matchingLeaves E (nrm query). (l, a) \<in> (childRel E)\<^sup>+}"
    unfolding m by simp
  then have v: "set (set_add (rootId E) vs0) = specVisible E (nrm query)"
    unfolding specVisible_def by auto
  let ?E' = "callObservers
             (E\<lparr> searchQuery := query, normalizedQuery := nrm query, searchActive := True,
                 stateCacheFiltered := Map.empty,
                 visibleSet := set_add (rootId E) vs0,
                 visibleChildrenMap := restrictChildren E (set_add (rootId E) vs0),
                 expanded := foldl (\<lambda>s x. set_add x s) (set_add (rootId E) [])
                               (filter (\<lambda>i. i \<in> set (folderSet E)) (set_add (rootId E) vs0)),
                 searchEpoch := searchEpoch E + 1, version := version E + 1,
                 expandVersion := expandVersion E + 1, flatCacheVersion := - 1 \<rparr>)"
  have s: "setSearchQuery nrm fuel query E = Some ?E'"
    by (rule setSearchQuery_activate [where nrm = nrm and query = query, OF assms(4,5) a])
  have 1: "searchActive ?E'" by (simp add: callObservers_def)
  have 2: "set (visibleSet ?E') = specVisible E (nrm query)"
    using v by (simp add: callObservers_def)
  have 3: "visibleChildrenMap ?E' =
             (\<lambda>i. if i \<in> specVisible E (nrm query) \<and>
                      filter (\<lambda>c. c \<in> specVisible E (nrm query)) (childrenOf E i) \<noteq> []
                   then Some (filter (\<lambda>c. c \<in> specVisible E (nrm query)) (childrenOf E i))
                   else None)"
    unfolding v [symmetric] by (simp add: callObservers_def restrictChildren_eq)
  have 4: "set (expanded ?E') = {rootId E} \<union> (specVisible E (nrm query) \<inter> set (folderSet E))"
    unfolding v [symmetric] by (auto simp: callObservers_def)
  from s 1 2 3 4 show ?thesis by (intro exI [of _ ?E'] conjI)
qed

lemma emptyIdEngine_eq:
  "emptyIdEngine =
     \<lparr> allCheckedCache = [], allCheckedCacheVersion = - 1, assignments = Map.empty,
       childrenMap = [(''__root__'', ['''']), ('''', [''a'']), (''a'', [])],
       expanded = [''__root__''], expandVersion = 0, flatCacheVersion = - 1,
       flatVisibleItems = [], folderSet = [''__root__'', ''''], indexById = Map.empty,
       labelMap = [''__root__'' \<mapsto> ''root'', '''' \<mapsto> ''folder'', ''a'' \<mapsto> ''alpha''],
       leafIds = [''a''], minSearchChars = 3,
       normalizedLeafLabel = [''a'' \<mapsto> ''alpha''],
       normalizedQuery = [], observers = [],
       parentMap = ['''' \<mapsto> Some ''__root__'', ''a'' \<mapsto> Some '''', ''__root__'' \<mapsto> None],
       rootId = ''__root__'', searchActive = False, searchEpoch = 0, searchQuery = [],
       selectionVersion = 0, stateCache = Map.empty, stateCacheFiltered = Map.empty,
       version = 0, visibleChildrenMap = Map.empty, visibleSet = [], calls = [] \<rparr>"
  by (simp add: emptyIdEngine_def newEngine_def emptyIdData_def noOptions_def buildEntry_def
        Let_def emptyEngine_def set_add_def)

lemma validForest_emptyIdEngine: "validForest emptyIdEngine"
  unfolding validForest_def emptyIdEngine_eq
  by (simp add: childrenOf_def parentFromChildren_def)

text \<open>
  C4.  The walk to the ancestors of a matching leaf stops at a parent whose
  id is the empty string (\<open>while (p)\<close>).  In the valid forest
  \<open>root \<rightarrow> "" \<rightarrow> a\<close> the query \<open>alp\<close> matches the leaf \<open>a\<close> (label
  \<open>alpha\<close>); its parent \<open>""\<close> is an ancestor and a member of the specified
  visible set, but not of \<open>visibleSet\<close>, and the root gets no entry in
  \<open>visibleChildrenMap\<close>.
\<close>

theorem setSearchQuery_misses_ancestor_with_empty_id:
  "validForest emptyIdEngine \<and>
   ''alp'' \<noteq> normalizedQuery emptyIdEngine \<and>
   minSearchChars emptyIdEngine \<le> int (length ''alp'') \<and>
   ''a'' \<in> matchingLeaves emptyIdEngine ''alp'' \<and>
   ('''' :: string) \<in> specVisible emptyIdEngine ''alp'' \<and>
   (\<exists>E'. setSearchQuery (\<lambda>s. s) 13 ''alp'' emptyIdEngine = Some E' \<and>
         visibleSet E' = [''a'', ''__root__''] \<and>
         ('''' :: string) \<notin> set (visibleSet E') \<and>
         visibleChildrenMap E' ''__root__'' = None \<and>
         set (visibleSet E') \<noteq> specVisible emptyIdEngine ''alp'')"
proof -
  have m: "''a'' \<in> matchingLeaves emptyIdEngine ''alp''"
    by (simp add: matchingLeaves_def emptyIdEngine_eq str_includes_def)
  have "(''a'', '''') \<in> childRel emptyIdEngine"
    by (simp add: childRel_def childrenOf_def emptyIdEngine_eq)
  then have "(''a'', '''') \<in> (childRel emptyIdEngine)\<^sup>+" by (rule r_into_trancl)
  with m have v: "('''' :: string) \<in> specVisible emptyIdEngine ''alp''"
    by (auto simp: specVisible_def)
  have s: "\<exists>E'. setSearchQuery (\<lambda>s. s) 13 ''alp'' emptyIdEngine = Some E' \<and>
         visibleSet E' = [''a'', ''__root__''] \<and>
         visibleChildrenMap E' ''__root__'' = None"
    by (simp add: setSearchQuery_def emptyIdEngine_eq Let_def str_includes_def set_add_def
          restrictChildren_def childrenOf_def callObservers_def)
  have q: "''alp'' \<noteq> normalizedQuery emptyIdEngine"
    "minSearchChars emptyIdEngine \<le> int (length ''alp'')"
    by (simp_all add: emptyIdEngine_eq)
  from s v have "\<exists>E'. setSearchQuery (\<lambda>s. s) 13 ''alp'' emptyIdEngine = Some E' \<and>
         visibleSet E' = [''a'', ''__root__''] \<and>
         ('''' :: string) \<notin> set (visibleSet E') \<and>
         visibleChildrenMap E' ''__root__'' = None \<and>
         set (visibleSet E') \<noteq> specVisible emptyIdEngine ''alp''"
    by auto
  with validForest_emptyIdEngine q m v show ?thesis by blast
qed

lemma setSearchQuery_total:
  assumes "validForest E" and "fuelBound E \<le> fuel"
  shows "\<exists>E'. setSearchQuery nrm fuel query E = Some E'"
proof (cases "nrm query \<noteq> normalizedQuery E \<and> minSearchChars E \<le> int (length (nrm query))")
  case True
  have "length (childrenMap E) + 1 \<le> fuel" using assms(2) by (simp add: fuelBound_def)
  from addMatches_total [OF assms(1) this] obtain vs0 where
    "addMatches fuel (parentMap E)
           (filter (\<lambda>i. str_includes (case normalizedLeafLabel E i of None \<Rightarrow> [] | Some l \<Rightarrow> l)
                                     (nrm query)) (leafIds E)) [] = Some vs0"
    by blast
  from setSearchQuery_activate [where nrm = nrm and query = query, OF _ _ this] True
  show ?thesis by blast
next
  case False
  then show ?thesis by (auto simp: setSearchQuery_def Let_def)
qed

lemma overlayOk_cong:
  "visibleChildrenMap E' = visibleChildrenMap E \<Longrightarrow> visibleSet E' = visibleSet E \<Longrightarrow>
   childrenMap E' = childrenMap E \<Longrightarrow> overlayOk E' = overlayOk E"
  unfolding overlayOk_def by (drule childrenOf_cong) simp

lemma setSearchQuery_topology:
  assumes "setSearchQuery nrm fuel query E = Some E'"
  shows "childrenMap E' = childrenMap E \<and> parentMap E' = parentMap E \<and> rootId E' = rootId E \<and>
         folderSet E' = folderSet E \<and> leafIds E' = leafIds E"
  using assms
  by (auto simp: setSearchQuery_def Let_def callObservers_def split: if_splits option.splits)

lemma setSearchQuery_overlayOk:
  assumes "setSearchQuery nrm fuel query E = Some E'" and "overlayOk E"
  shows "overlayOk E'"
proof (cases "nrm query = normalizedQuery E")
  case True
  with assms(1) have "E' = E\<lparr> searchQuery := query \<rparr>" by (simp add: setSearchQuery_def Let_def)
  then have "overlayOk E' = overlayOk E" by (intro overlayOk_cong) simp_all
  with assms(2) show ?thesis by simp
next
  case False
  show ?thesis
  proof (cases "minSearchChars E \<le> int (length (nrm query))")
    case inactive: False
    with False assms(1) have "visibleChildrenMap E' = Map.empty"
      by (auto simp: setSearchQuery_def Let_def callObservers_def split: if_splits)
    then show ?thesis by (simp add: overlayOk_def)
  next
    case True
    with False assms(1) obtain vs0 where
      a: "addMatches fuel (parentMap E)
           (filter (\<lambda>i. str_includes (case normalizedLeafLabel E i of None \<Rightarrow> [] | Some l \<Rightarrow> l)
                                     (nrm query)) (leafIds E)) [] = Some vs0"
      by (auto simp: setSearchQuery_def Let_def split: option.splits)
    from setSearchQuery_activate [where nrm = nrm and query = query, OF False True a] assms(1)
    have "visibleSet E' = set_add (rootId E) vs0"
      and "visibleChildrenMap E' = restrictChildren E (set_add (rootId E) vs0)"
      and "childrenMap E' = childrenMap E"
      by (auto simp: callObservers_def)
    then show ?thesis
      by (auto simp: overlayOk_def restrictChildren_eq childrenOf_def split: if_splits)
  qed
qed

section \<open>Root stays expanded: sequences of operations\<close>

lemma sameTopology_refl [simp]: "sameTopology E E"
  by (simp add: sameTopology_def)

lemma sameTopology_trans: "sameTopology E2 E1 \<Longrightarrow> sameTopology E1 E \<Longrightarrow> sameTopology E2 E"
  by (simp add: sameTopology_def)

lemma sameTopology_validForest: "sameTopology E' E \<Longrightarrow> validForest E' = validForest E"
  unfolding sameTopology_def by (intro validForest_topology) simp_all

lemma sameTopology_fuelBound: "sameTopology E' E \<Longrightarrow> fuelBound E' = fuelBound E"
  by (simp add: sameTopology_def fuelBound_def)

lemma topology_bumpNoRecompute [simp]:
  "childrenMap (bumpNoRecompute E) = childrenMap E"
  "parentMap (bumpNoRecompute E) = parentMap E"
  "leafIds (bumpNoRecompute E) = leafIds E"
  by (simp_all add: bumpNoRecompute_def callObservers_def)

lemma sameTopology_bumpNoRecompute [simp]: "sameTopology (bumpNoRecompute E) E' = sameTopology E E'"
  by (simp add: sameTopology_def bumpNoRecompute_def callObservers_def)

lemma expansionOp_total:
  assumes "expansionOp op" and "validForest E" and "fuelBound E \<le> fuel"
  shows "\<exists>E'. applyOperation nrm fuel op E = Some E' \<and> sameTopology E' E"
proof (cases op)
  case (ToggleExpanded i)
  have "sameTopology (toggleExpanded i E) E"
    by (cases "i = rootId E") (simp_all add: toggleExpanded_def Let_def sameTopology_def)
  with ToggleExpanded show ?thesis by simp
next
  case CollapseAll
  then show ?thesis by (simp add: collapseAll_def sameTopology_def)
next
  case ExpandAll
  then show ?thesis by (simp add: expandAll_def sameTopology_def)
next
  case (SetExpanded ids)
  then show ?thesis by (simp add: setExpanded_def Let_def sameTopology_def)
next
  case (SetSearchQuery q)
  from setSearchQuery_total [OF assms(2,3), of nrm q] obtain E' where
    s: "setSearchQuery nrm fuel q E = Some E'" by blast
  from setSearchQuery_topology [OF s] have "sameTopology E' E" by (simp add: sameTopology_def)
  with s SetSearchQuery show ?thesis by simp
next
  case (SetMinSearchChars n)
  with assms(1) show ?thesis by simp
next
  case (Toggle i c)
  with assms(1) show ?thesis by simp
next
  case (SetChecked ids s)
  with assms(1) show ?thesis by simp
next
  case (Subscribe cb)
  with assms(1) show ?thesis by simp
qed

lemma expansionOps_total:
  "list_all expansionOp ops \<Longrightarrow> validForest E \<Longrightarrow> fuelBound E \<le> fuel \<Longrightarrow>
     \<exists>E'. runOperations nrm fuel ops E = Some E'"
proof (induction ops arbitrary: E)
  case Nil
  then show ?case by simp
next
  case (Cons op ops)
  from Cons.prems(1) have o: "expansionOp op" and os: "list_all expansionOp ops" by simp_all
  from expansionOp_total [OF o Cons.prems(2,3), of nrm] obtain E1 where
    a: "applyOperation nrm fuel op E = Some E1" and t: "sameTopology E1 E" by blast
  from t Cons.prems(2,3) have "validForest E1" and "fuelBound E1 \<le> fuel"
    by (simp_all add: sameTopology_validForest sameTopology_fuelBound)
  from Cons.IH [OF os this] a show ?case by simp
qed

text \<open>
  C6, as the code has it.  When the root entry of the input lists at least one
  child, the root is a member of \<open>expanded\<close> after construction and after
  every sequence of public operations that completes; and in a valid forest
  every sequence of \<open>toggleExpanded\<close>, \<open>collapseAll\<close>, \<open>expandAll\<close>,
  \<open>setExpanded\<close> and \<open>setSearchQuery\<close> completes.
\<close>

theorem root_stays_expanded:
  assumes "(case optRootId opts of None \<Rightarrow> ''__root__'' | Some r \<Rightarrow> r, item) \<in> set data"
    and "children item = Some cs" and "cs \<noteq> []"
  shows "(\<forall>E'. runOperations nrm fuel ops (newEngine nrm data opts) = Some E' \<longrightarrow>
               rootId E' \<in> set (expanded E')) \<and>
         (validForest (newEngine nrm data opts) \<and> fuelBound (newEngine nrm data opts) \<le> fuel \<and>
          list_all expansionOp ops \<longrightarrow>
            (\<exists>E'. runOperations nrm fuel ops (newEngine nrm data opts) = Some E'))"
proof (intro conjI allI impI)
  fix E'
  assume "runOperations nrm fuel ops (newEngine nrm data opts) = Some E'"
  from rootOpen_runOperations [OF rootOpen_newEngine [OF assms] this]
  show "rootId E' \<in> set (expanded E')" by (simp add: rootOpen_def)
next
  assume "validForest (newEngine nrm data opts) \<and> fuelBound (newEngine nrm data opts) \<le> fuel \<and>
          list_all expansionOp ops"
  then show "\<exists>E'. runOperations nrm fuel ops (newEngine nrm data opts) = Some E'"
    using expansionOps_total by blast
qed

theorem root_stays_expanded_witness:
  "(''__root__'', \<lparr> children = Some [''p'', ''b''], label = Some ''root'' \<rparr>) \<in> set exampleData \<and>
   validForest exampleEngine \<and> fuelBound exampleEngine \<le> 13 \<and>
   list_all expansionOp
     [ToggleExpanded ''__root__'', CollapseAll, SetSearchQuery ''alp'', SetExpanded [''p''],
      ExpandAll, SetSearchQuery ''''] \<and>
   (\<exists>E'. runOperations (\<lambda>s. s) 13
           [ToggleExpanded ''__root__'', CollapseAll, SetSearchQuery ''alp'', SetExpanded [''p''],
            ExpandAll, SetSearchQuery ''''] exampleEngine = Some E' \<and>
         rootId E' \<in> set (expanded E'))"
proof -
  let ?ops = "[ToggleExpanded ''__root__'', CollapseAll, SetSearchQuery ''alp'',
               SetExpanded [''p''], ExpandAll, SetSearchQuery '''']"
  have d: "(''__root__'', \<lparr> children = Some [''p'', ''b''], label = Some ''root'' \<rparr>)
             \<in> set exampleData"
    by (simp add: exampleData_def)
  then have d': "(case optRootId noOptions of None \<Rightarrow> ''__root__'' | Some r \<Rightarrow> r,
                  \<lparr> children = Some [''p'', ''b''], label = Some ''root'' \<rparr>) \<in> set exampleData"
    by (simp add: noOptions_def)
  have f: "fuelBound exampleEngine \<le> 13" by (simp add: fuelBound_def exampleEngine_eq)
  have l: "list_all expansionOp ?ops" by simp
  from root_stays_expanded [OF d', of "[''p'', ''b'']" "\<lambda>s. s" 13 ?ops]
    validForest_exampleEngine f l
  have "\<exists>E'. runOperations (\<lambda>s. s) 13 ?ops exampleEngine = Some E' \<and>
         rootId E' \<in> set (expanded E')"
    unfolding exampleEngine_def [symmetric] by auto
  with d validForest_exampleEngine f l show ?thesis by blast
qed

theorem root_not_expanded_counterexample:
  "runOperations (\<lambda>s. s) 13 [CollapseAll] (newEngine (\<lambda>s. s) bareRootData noOptions) =
     Some (collapseAll (newEngine (\<lambda>s. s) bareRootData noOptions)) \<and>
   rootId (newEngine (\<lambda>s. s) bareRootData noOptions)
     \<notin> set (expanded (newEngine (\<lambda>s. s) bareRootData noOptions)) \<and>
   rootId (collapseAll (newEngine (\<lambda>s. s) bareRootData noOptions))
     \<notin> set (expanded (collapseAll (newEngine (\<lambda>s. s) bareRootData noOptions)))"
  by (simp add: newEngine_def bareRootData_def noOptions_def buildEntry_def Let_def
        emptyEngine_def collapseAll_def bumpNoRecompute_def callObservers_def)

section \<open>Index consistency of the flattened list\<close>

lemma rowsOk_Nil [simp]: "rowsOk out idx [] idx"
  by (simp add: rowsOk_def)

lemma rowsOk_single: "rowsOk out idx [v] (idx(item_id v \<mapsto> length out))"
  by (simp add: rowsOk_def)

lemma rowsOk_append:
  assumes "rowsOk out idx new1 idx1" and "rowsOk (out @ new1) idx1 new2 idx2"
    and "set (map item_id new1) \<inter> set (map item_id new2) = {}"
  shows "rowsOk out idx (new1 @ new2) idx2"
  unfolding rowsOk_def
proof (intro conjI allI impI)
  from assms show "distinct (map item_id (new1 @ new2))" by (auto simp: rowsOk_def)
next
  fix k
  assume k: "k < length (new1 @ new2)"
  show "idx2 (item_id ((new1 @ new2) ! k)) = Some (length out + k)"
  proof (cases "k < length new1")
    case True
    then have "item_id (new1 ! k) \<in> set (map item_id new1)" by simp
    with assms(3) have "item_id (new1 ! k) \<notin> set (map item_id new2)" by blast
    with assms(2) have "idx2 (item_id (new1 ! k)) = idx1 (item_id (new1 ! k))"
      by (simp add: rowsOk_def)
    also from assms(1) True have "\<dots> = Some (length out + k)" by (simp add: rowsOk_def)
    finally show ?thesis using True by (simp add: nth_append)
  next
    case False
    with k have "k - length new1 < length new2" by simp
    with assms(2) have "idx2 (item_id (new2 ! (k - length new1))) =
                          Some (length (out @ new1) + (k - length new1))"
      by (simp add: rowsOk_def)
    with False show ?thesis by (simp add: nth_append)
  qed
next
  fix x
  assume "x \<notin> set (map item_id (new1 @ new2))"
  with assms(1,2) show "idx2 x = idx x" by (simp add: rowsOk_def)
qed

lemma viewRel_sub:
  assumes "overlayOk E"
  shows "viewRel E \<subseteq> childRel E"
  using overlayOk_sub [OF assms] by (auto simp: viewRel_def childRel_def viewChildrenOf_def)

lemma viewChildren_sub:
  "overlayOk E \<Longrightarrow> set (viewChildrenOf E i) \<subseteq> set (childrenOf E i)"
  using overlayOk_sub [of E i] by (simp add: viewChildrenOf_def)

lemma children_distinct:
  assumes "validForest E"
  shows "distinct (childrenOf E i)"
proof (cases "map_of (childrenMap E) i")
  case None
  then show ?thesis by (simp add: childrenOf_def)
next
  case (Some cs)
  then have "cs \<in> set (map snd (childrenMap E))" by (force dest: map_of_SomeD)
  moreover from assms have "distinct (concat (map snd (childrenMap E)))"
    by (simp add: validForest_def)
  ultimately have "distinct cs" by (auto simp: distinct_concat_iff)
  with Some show ?thesis by (simp add: childrenOf_def)
qed

lemma viewChildren_distinct:
  assumes "validForest E" and "overlayOk E"
  shows "distinct (viewChildrenOf E i)"
proof -
  from overlayOk_children [OF assms(2), of i] children_distinct [OF assms(1), of i]
  have "distinct (visibleChildrenOf E i)" by auto
  with children_distinct [OF assms(1), of i] show ?thesis by (simp add: viewChildrenOf_def)
qed

lemma single_valued_childRel: "validForest E \<Longrightarrow> single_valued (childRel E)"
  by (auto simp: single_valued_def childRel_def dest: parent_unique)

lemma siblings_disjoint:
  assumes v: "validForest E" and c1: "c1 \<in> set (childrenOf E p)" and c2: "c2 \<in> set (childrenOf E p)"
    and x1: "(x, c1) \<in> (childRel E)\<^sup>*" and x2: "(x, c2) \<in> (childRel E)\<^sup>*"
  shows "c1 = c2"
proof (rule ccontr)
  assume ne: "c1 \<noteq> c2"
  have up: False if a: "a \<in> set (childrenOf E p)" and b: "b \<in> set (childrenOf E p)"
    and ab: "(a, b) \<in> (childRel E)\<^sup>*" and "a \<noteq> b" for a b
  proof -
    from ab \<open>a \<noteq> b\<close> have "(a, b) \<in> (childRel E)\<^sup>+" by (simp add: rtrancl_eq_or_trancl)
    then obtain q where q: "(a, q) \<in> childRel E" and qb: "(q, b) \<in> (childRel E)\<^sup>*"
      by (auto dest: tranclD)
    from q have "a \<in> set (childrenOf E q)" by (simp add: childRel_def)
    from parent_unique [OF v a this] have "q = p" by simp
    moreover from b have "(b, p) \<in> childRel E" by (simp add: childRel_def)
    ultimately have "(p, p) \<in> (childRel E)\<^sup>+" using qb by (auto intro: rtrancl_into_trancl1)
    with childRel_irrefl [OF v] show False by simp
  qed
  from single_valued_confluent [OF single_valued_childRel [OF v] x1 x2]
  show False using up [OF c1 c2] up [OF c2 c1] ne by auto
qed

lemma visit_non_root:
  assumes "i \<noteq> rootId E"
  shows "\<exists>v. item_id v = i \<and>
           visit (Suc n) E i lvl (out, idx) =
             (if isExpanded v
              then visitChildren n E (viewChildrenOf E i) (lvl + 1)
                     (out @ [v], idx(i \<mapsto> length out))
              else Some (out @ [v], idx(i \<mapsto> length out)))"
proof -
  define eff where "eff = (if searchActive E then 0 < length (viewChildrenOf E i)
                            else i \<in> set (folderSet E))"
  define v where "v = \<lparr> item_id = i, isExpanded = (eff \<and> i \<in> set (expanded E)),
                         isFolder = eff, level = lvl \<rparr>"
  have "visit (Suc n) E i lvl (out, idx) =
             (if isExpanded v
              then visitChildren n E (viewChildrenOf E i) (lvl + 1)
                     (out @ [v], idx(i \<mapsto> length out))
              else Some (out @ [v], idx(i \<mapsto> length out)))"
    using assms by (auto simp: Let_def v_def eff_def)
  moreover have "item_id v = i" by (simp add: v_def)
  ultimately show ?thesis by blast
qed

lemma root_not_child:
  assumes "validForest E" and "c \<in> set (childrenOf E p)"
  shows "c \<noteq> rootId E"
proof -
  from assms(2) obtain cs where m: "map_of (childrenMap E) p = Some cs" and c: "c \<in> set cs"
    by (cases "map_of (childrenMap E) p") (auto simp: childrenOf_def)
  from map_of_SomeD [OF m] c have "c \<in> set (concat (map snd (childrenMap E)))" by force
  moreover from assms(1) have "rootId E \<notin> set (concat (map snd (childrenMap E)))"
    by (simp add: validForest_def)
  ultimately show ?thesis by auto
qed

lemma visitChildren_rows:
  assumes v: "validForest E" and o: "overlayOk E"
    and S: "\<forall>i lvl out idx r. i \<noteq> rootId E \<longrightarrow> depthOk r (viewChildrenOf E) i \<longrightarrow> r \<le> n \<longrightarrow>
              (\<exists>new idx'. visit n E i lvl (out, idx) = Some (out @ new, idx') \<and>
                           rowsOk out idx new idx' \<and>
                           set (map item_id new) \<subseteq> {x. (x, i) \<in> (viewRel E)\<^sup>*})"
    and r: "r \<le> n"
  shows "distinct cs \<Longrightarrow> set cs \<subseteq> set (viewChildrenOf E p) \<Longrightarrow>
           list_all (depthOk r (viewChildrenOf E)) cs \<Longrightarrow>
           \<exists>new idx'. visitChildren n E cs lvl (out, idx) = Some (out @ new, idx') \<and>
                        rowsOk out idx new idx' \<and>
                        set (map item_id new) \<subseteq> {x. \<exists>c \<in> set cs. (x, c) \<in> (viewRel E)\<^sup>*}"
proof (induction cs arbitrary: out idx)
  case Nil
  have "visitChildren n E [] lvl (out, idx) = Some (out @ [], idx)" by simp
  then show ?case by (intro exI [of _ "[]"] exI [of _ idx] conjI) simp_all
next
  case (Cons c cs)
  from Cons.prems(2) have cp: "c \<in> set (viewChildrenOf E p)" by simp
  with viewChildren_sub [OF o, of p] have cc: "c \<in> set (childrenOf E p)" by blast
  from root_not_child [OF v cc] have nr: "c \<noteq> rootId E" .
  from Cons.prems(3) have dc: "depthOk r (viewChildrenOf E) c" by simp
  from S [rule_format, OF nr dc r, of lvl out idx] obtain new1 idx1 where
    v1: "visit n E c lvl (out, idx) = Some (out @ new1, idx1)"
    and r1: "rowsOk out idx new1 idx1"
    and s1: "set (map item_id new1) \<subseteq> {x. (x, c) \<in> (viewRel E)\<^sup>*}"
    by (elim exE conjE)
  from Cons.prems have "distinct cs" and "set cs \<subseteq> set (viewChildrenOf E p)"
    and "list_all (depthOk r (viewChildrenOf E)) cs" by simp_all
  from Cons.IH [OF this, of "out @ new1" idx1] obtain new2 idx2 where
    v2: "visitChildren n E cs lvl (out @ new1, idx1) = Some ((out @ new1) @ new2, idx2)"
    and r2: "rowsOk (out @ new1) idx1 new2 idx2"
    and s2: "set (map item_id new2) \<subseteq> {x. \<exists>c \<in> set cs. (x, c) \<in> (viewRel E)\<^sup>*}"
    by (elim exE conjE)
  have disj: "set (map item_id new1) \<inter> set (map item_id new2) = {}"
  proof (rule ccontr)
    assume "set (map item_id new1) \<inter> set (map item_id new2) \<noteq> {}"
    then obtain x where "x \<in> set (map item_id new1)" and "x \<in> set (map item_id new2)" by blast
    with s1 s2 obtain c' where x1: "(x, c) \<in> (viewRel E)\<^sup>*" and c': "c' \<in> set cs"
      and x2: "(x, c') \<in> (viewRel E)\<^sup>*" by blast
    from c' Cons.prems(2) viewChildren_sub [OF o, of p] have "c' \<in> set (childrenOf E p)" by auto
    from siblings_disjoint [OF v cc this
           rtrancl_mono [OF viewRel_sub [OF o], THEN subsetD, OF x1]
           rtrancl_mono [OF viewRel_sub [OF o], THEN subsetD, OF x2]]
    have "c = c'" .
    with c' Cons.prems(1) show False by simp
  qed
  have "visitChildren n E (c # cs) lvl (out, idx) = Some (out @ (new1 @ new2), idx2)"
    using v1 v2 by simp
  moreover have "rowsOk out idx (new1 @ new2) idx2" by (rule rowsOk_append [OF r1 r2 disj])
  moreover have "set (map item_id (new1 @ new2)) \<subseteq>
                   {x. \<exists>c' \<in> set (c # cs). (x, c') \<in> (viewRel E)\<^sup>*}"
    using s1 s2 by auto
  ultimately show ?case by (intro exI [of _ "new1 @ new2"] exI [of _ idx2] conjI)
qed

lemma viewRel_irrefl:
  assumes "validForest E" and "overlayOk E"
  shows "(i, i) \<notin> (viewRel E)\<^sup>+"
  using trancl_mono [OF _ viewRel_sub [OF assms(2)], of "(i, i)"] childRel_irrefl [OF assms(1), of i]
  by blast

lemma visit_rows:
  assumes v: "validForest E" and o: "overlayOk E"
  shows "\<forall>i lvl out idx r. i \<noteq> rootId E \<longrightarrow> depthOk r (viewChildrenOf E) i \<longrightarrow> r \<le> n \<longrightarrow>
              (\<exists>new idx'. visit n E i lvl (out, idx) = Some (out @ new, idx') \<and>
                           rowsOk out idx new idx' \<and>
                           set (map item_id new) \<subseteq> {x. (x, i) \<in> (viewRel E)\<^sup>*})"
proof (induction n)
  case 0
  show ?case by (intro allI impI) (simp add: not_less_eq_eq)
next
  case (Suc n)
  show ?case
  proof (intro allI impI)
    fix i lvl out idx r
    assume nr: "i \<noteq> rootId E" and d: "depthOk r (viewChildrenOf E) i" and le: "r \<le> Suc n"
    from d obtain r' where r': "r = Suc r'"
      and dc: "list_all (depthOk r' (viewChildrenOf E)) (viewChildrenOf E i)"
      by (cases r) auto
    from le r' have le': "r' \<le> n" by simp
    from visit_non_root [OF nr, of n lvl out idx] obtain w where
      w: "item_id w = i"
      and e: "visit (Suc n) E i lvl (out, idx) =
                (if isExpanded w
                 then visitChildren n E (viewChildrenOf E i) (lvl + 1)
                        (out @ [w], idx(i \<mapsto> length out))
                 else Some (out @ [w], idx(i \<mapsto> length out)))"
      by (elim exE conjE)
    have r1: "rowsOk out idx [w] (idx(i \<mapsto> length out))"
      using rowsOk_single [of out idx w] by (simp add: w)
    show "\<exists>new idx'. visit (Suc n) E i lvl (out, idx) = Some (out @ new, idx') \<and>
             rowsOk out idx new idx' \<and>
             set (map item_id new) \<subseteq> {x. (x, i) \<in> (viewRel E)\<^sup>*}"
    proof (cases "isExpanded w")
      case False
      with e have "visit (Suc n) E i lvl (out, idx) = Some (out @ [w], idx(i \<mapsto> length out))"
        by simp
      moreover have "set (map item_id [w]) \<subseteq> {x. (x, i) \<in> (viewRel E)\<^sup>*}" by (simp add: w)
      ultimately show ?thesis
        using r1 by (intro exI [of _ "[w]"] exI [of _ "idx(i \<mapsto> length out)"] conjI)
    next
      case True
      from visitChildren_rows [OF v o Suc le' viewChildren_distinct [OF v o, of i] subset_refl dc,
             of "lvl + 1" "out @ [w]" "idx(i \<mapsto> length out)"]
      obtain new2 idx2 where
        v2: "visitChildren n E (viewChildrenOf E i) (lvl + 1) (out @ [w], idx(i \<mapsto> length out)) =
               Some ((out @ [w]) @ new2, idx2)"
        and r2: "rowsOk (out @ [w]) (idx(i \<mapsto> length out)) new2 idx2"
        and s2: "set (map item_id new2) \<subseteq>
                   {x. \<exists>c \<in> set (viewChildrenOf E i). (x, c) \<in> (viewRel E)\<^sup>*}"
        by (elim exE conjE)
      have below: "(x, i) \<in> (viewRel E)\<^sup>+" if "x \<in> set (map item_id new2)" for x
      proof -
        from that s2 obtain c where "c \<in> set (viewChildrenOf E i)" and "(x, c) \<in> (viewRel E)\<^sup>*"
          by blast
        then have "(x, c) \<in> (viewRel E)\<^sup>*" and "(c, i) \<in> viewRel E" by (simp_all add: viewRel_def)
        then show ?thesis by (rule rtrancl_into_trancl1)
      qed
      have below': "(x, i) \<in> (viewRel E)\<^sup>*" if "x \<in> set (map item_id new2)" for x
        using below [OF that] by (rule trancl_into_rtrancl)
      have disj: "set (map item_id [w]) \<inter> set (map item_id new2) = {}"
        using below [of i] viewRel_irrefl [OF v o, of i] by (auto simp: w)
      have "visit (Suc n) E i lvl (out, idx) = Some (out @ ([w] @ new2), idx2)"
        using e True v2 by simp
      moreover have "rowsOk out idx ([w] @ new2) idx2" by (rule rowsOk_append [OF r1 r2 disj])
      moreover have "set (map item_id ([w] @ new2)) \<subseteq> {x. (x, i) \<in> (viewRel E)\<^sup>*}"
        using below' by (auto simp: w)
      ultimately show ?thesis by (intro exI [of _ "[w] @ new2"] exI [of _ idx2] conjI)
    qed
  qed
qed

lemma viewChildren_depthOk:
  assumes "validForest E" and "overlayOk E"
  shows "depthOk (Suc (length (childrenMap E))) (viewChildrenOf E) i"
  by (rule depthOk_sub [OF viewChildren_sub [OF assms(2)] validForest_depthOk [OF assms(1)]])

lemma visit_root_rows:
  assumes v: "validForest E" and o: "overlayOk E" and f: "fuelBound E \<le> fuel"
  shows "\<exists>rows idx. visit fuel E (rootId E) (- 1) ([], Map.empty) = Some (rows, idx) \<and>
                     rowsOk [] Map.empty rows idx"
proof -
  from f obtain n where n: "fuel = Suc n" and le: "Suc (length (childrenMap E)) \<le> n"
    by (cases fuel) (auto simp: fuelBound_def)
  have dc: "list_all (depthOk (Suc (length (childrenMap E))) (viewChildrenOf E))
              (viewChildrenOf E (rootId E))"
    using viewChildren_depthOk [OF v o] by (simp add: list_all_iff)
  from visitChildren_rows [OF v o visit_rows [OF v o] le viewChildren_distinct [OF v o] subset_refl dc,
         of 0 "[]" Map.empty]
  obtain new idx' where
    "visitChildren n E (viewChildrenOf E (rootId E)) 0 ([], Map.empty) = Some ([] @ new, idx')"
    and "rowsOk [] Map.empty new idx'"
    by (elim exE conjE)
  then show ?thesis by (intro exI [of _ new] exI [of _ idx'] conjI) (simp_all add: n Let_def)
qed

lemma cacheKey_flat_update [simp]:
  "cacheKey (E\<lparr> indexById := idx, flatVisibleItems := rows, flatCacheVersion := k \<rparr>) = cacheKey E"
  by (simp add: cacheKey_def)

lemma indexOf_hit:
  assumes "flatCacheVersion E = cacheKey E"
  shows "indexOf fuel i E = Some (case indexById E i of None \<Rightarrow> - 1 | Some k \<Rightarrow> int k, E)"
  using assms by (simp add: indexOf_def getVisibleItems_def)

text \<open>
  C7.  In every state of a valid forest (with enough fuel),
  \<open>getVisibleItems\<close> returns a list \<open>items\<close> and a state \<open>E1\<close>, and
  \<open>indexOf\<close>, called in that same state \<open>E\<close> (where it refreshes the
  flattened list itself when the cache is stale), returns \<open>k\<close> for the id
  of the row at position \<open>k\<close> of \<open>items\<close> and \<open>-1\<close> for an id that is
  in no row (an id outside the tree included), and leaves the state \<open>E1\<close>.
  Called again in \<open>E1\<close>, with any fuel, \<open>indexOf\<close> gives the same
  answers and does not change the state.
\<close>

theorem indexOf_matches_getVisibleItems:
  assumes "validForest E" and "overlayOk E" and "flatCacheOk E" and "fuelBound E \<le> fuel"
  shows "\<exists>items E1. getVisibleItems fuel E = Some (items, E1) \<and>
           (\<forall>k < length items. indexOf fuel (item_id (items ! k)) E = Some (int k, E1)) \<and>
           (\<forall>i. i \<notin> set (map item_id items) \<longrightarrow> indexOf fuel i E = Some (- 1, E1)) \<and>
           (\<forall>k < length items. indexOf fuel' (item_id (items ! k)) E1 = Some (int k, E1)) \<and>
           (\<forall>i. i \<notin> set (map item_id items) \<longrightarrow> indexOf fuel' i E1 = Some (- 1, E1))"
proof -
  have "\<exists>items E1. getVisibleItems fuel E = Some (items, E1) \<and>
          flatCacheVersion E1 = cacheKey E1 \<and> rowsOk [] Map.empty items (indexById E1)"
  proof (cases "flatCacheVersion E = cacheKey E")
    case True
    with assms(3) have "rowsOk [] Map.empty (flatVisibleItems E) (indexById E)"
      by (simp add: flatCacheOk_def)
    moreover from True have "getVisibleItems fuel E = Some (flatVisibleItems E, E)"
      by (simp add: getVisibleItems_def)
    ultimately show ?thesis using True by (intro exI [of _ "flatVisibleItems E"] exI [of _ E] conjI)
  next
    case False
    from visit_root_rows [OF assms(1,2,4)] obtain rows idx where
      a: "visit fuel E (rootId E) (- 1) ([], Map.empty) = Some (rows, idx)"
      and b: "rowsOk [] Map.empty rows idx" by (elim exE conjE)
    let ?E1 = "E\<lparr> indexById := idx, flatVisibleItems := rows, flatCacheVersion := cacheKey E \<rparr>"
    from False a have "getVisibleItems fuel E = Some (rows, ?E1)" by (simp add: getVisibleItems_def)
    moreover have "flatCacheVersion ?E1 = cacheKey ?E1" by simp
    moreover from b have "rowsOk [] Map.empty rows (indexById ?E1)" by simp
    ultimately show ?thesis by (intro exI [of _ rows] exI [of _ ?E1] conjI)
  qed
  then obtain items E1 where g: "getVisibleItems fuel E = Some (items, E1)"
    and h: "flatCacheVersion E1 = cacheKey E1"
    and r: "rowsOk [] Map.empty items (indexById E1)" by (elim exE conjE)
  have here: "indexOf fuel i E = Some (case indexById E1 i of None \<Rightarrow> - 1 | Some k \<Rightarrow> int k, E1)"
    for i
    by (simp add: indexOf_def g)
  have "\<forall>k < length items. indexOf fuel (item_id (items ! k)) E = Some (int k, E1)"
    using r by (simp add: here rowsOk_def)
  moreover have "\<forall>i. i \<notin> set (map item_id items) \<longrightarrow> indexOf fuel i E = Some (- 1, E1)"
    using r by (simp add: here rowsOk_def)
  moreover have "\<forall>k < length items. indexOf fuel' (item_id (items ! k)) E1 = Some (int k, E1)"
    using r by (simp add: indexOf_hit [OF h] rowsOk_def)
  moreover have "\<forall>i. i \<notin> set (map item_id items) \<longrightarrow> indexOf fuel' i E1 = Some (- 1, E1)"
    using r by (simp add: indexOf_hit [OF h] rowsOk_def)
  ultimately show ?thesis using g by (intro exI [of _ items] exI [of _ E1] conjI)
qed

lemma exampleExpanded_eq:
  "exampleExpanded =
     exampleEngine\<lparr> expanded := [''__root__'', ''p''], version := 1, expandVersion := 1 \<rparr>"
  by (simp add: exampleExpanded_def expandAll_def bumpNoRecompute_def callObservers_def
        exampleEngine_eq set_add_def)

lemma validForest_exampleExpanded: "validForest exampleExpanded"
proof -
  have "validForest exampleExpanded = validForest exampleEngine"
    by (rule validForest_topology) (simp_all add: exampleExpanded_eq)
  then show ?thesis by (simp add: validForest_exampleEngine)
qed

theorem indexOf_matches_getVisibleItems_witness:
  "validForest exampleExpanded \<and> overlayOk exampleExpanded \<and> flatCacheOk exampleExpanded \<and>
   fuelBound exampleExpanded \<le> 13 \<and> flatCacheVersion exampleExpanded \<noteq> cacheKey exampleExpanded \<and>
   (\<exists>items E1. getVisibleItems 13 exampleExpanded = Some (items, E1) \<and>
        map item_id items = [''p'', ''a'', ''c'', ''b''] \<and>
        indexOf 13 ''p'' exampleExpanded = Some (0, E1) \<and>
        indexOf 13 ''c'' exampleExpanded = Some (2, E1) \<and>
        indexOf 13 ''b'' exampleExpanded = Some (3, E1) \<and>
        indexOf 13 ''__root__'' exampleExpanded = Some (- 1, E1) \<and>
        indexOf 13 ''unknown'' exampleExpanded = Some (- 1, E1) \<and>
        indexOf 0 ''p'' E1 = Some (0, E1) \<and>
        indexOf 0 ''unknown'' E1 = Some (- 1, E1))"
proof -
  let ?rows = "[\<lparr> item_id = ''p'', isExpanded = True, isFolder = True, level = 0 \<rparr>,
                \<lparr> item_id = ''a'', isExpanded = False, isFolder = False, level = 1 \<rparr>,
                \<lparr> item_id = ''c'', isExpanded = False, isFolder = False, level = 1 \<rparr>,
                \<lparr> item_id = ''b'', isExpanded = False, isFolder = False, level = 0 \<rparr>]"
  have o: "overlayOk exampleExpanded"
    by (simp add: overlayOk_def exampleExpanded_eq exampleEngine_eq)
  have k: "cacheKey exampleExpanded = 256"
    by (simp add: cacheKey_def exampleExpanded_eq exampleEngine_eq)
  have c: "flatCacheOk exampleExpanded"
    unfolding flatCacheOk_def k by (simp add: exampleExpanded_eq exampleEngine_eq)
  have s: "flatCacheVersion exampleExpanded \<noteq> cacheKey exampleExpanded"
    unfolding k by (simp add: exampleExpanded_eq exampleEngine_eq)
  have f: "fuelBound exampleExpanded \<le> 13"
    by (simp add: fuelBound_def exampleExpanded_eq exampleEngine_eq)
  have e: "\<exists>E1. getVisibleItems 13 exampleExpanded = Some (?rows, E1)"
    unfolding getVisibleItems_def k
    by (simp add: exampleExpanded_eq exampleEngine_eq viewChildrenOf_def
          childrenOf_def Let_def numeral_eq_Suc)
  from indexOf_matches_getVisibleItems [OF validForest_exampleExpanded o c f, of 0]
  obtain items E1 where g: "getVisibleItems 13 exampleExpanded = Some (items, E1)"
    and a: "\<forall>k < length items. indexOf 13 (item_id (items ! k)) exampleExpanded = Some (int k, E1)"
    and b: "\<forall>i. i \<notin> set (map item_id items) \<longrightarrow> indexOf 13 i exampleExpanded = Some (- 1, E1)"
    and a1: "\<forall>k < length items. indexOf 0 (item_id (items ! k)) E1 = Some (int k, E1)"
    and b1: "\<forall>i. i \<notin> set (map item_id items) \<longrightarrow> indexOf 0 i E1 = Some (- 1, E1)"
    by (elim exE conjE)
  from e g have m: "items = ?rows" by auto
  from a [rule_format, of 0] a [rule_format, of 2] a [rule_format, of 3]
  have "indexOf 13 ''p'' exampleExpanded = Some (0, E1)"
    "indexOf 13 ''c'' exampleExpanded = Some (2, E1)"
    "indexOf 13 ''b'' exampleExpanded = Some (3, E1)"
    by (simp_all add: m)
  moreover from b [rule_format, of "''__root__''"] b [rule_format, of "''unknown''"]
  have "indexOf 13 ''__root__'' exampleExpanded = Some (- 1, E1)"
    "indexOf 13 ''unknown'' exampleExpanded = Some (- 1, E1)"
    by (simp_all add: m)
  moreover from a1 [rule_format, of 0] have "indexOf 0 ''p'' E1 = Some (0, E1)"
    by (simp add: m)
  moreover from b1 [rule_format, of "''unknown''"] have "indexOf 0 ''unknown'' E1 = Some (- 1, E1)"
    by (simp add: m)
  moreover have "map item_id items = [''p'', ''a'', ''c'', ''b'']" by (simp add: m)
  ultimately have "\<exists>items E1. getVisibleItems 13 exampleExpanded = Some (items, E1) \<and>
        map item_id items = [''p'', ''a'', ''c'', ''b''] \<and>
        indexOf 13 ''p'' exampleExpanded = Some (0, E1) \<and>
        indexOf 13 ''c'' exampleExpanded = Some (2, E1) \<and>
        indexOf 13 ''b'' exampleExpanded = Some (3, E1) \<and>
        indexOf 13 ''__root__'' exampleExpanded = Some (- 1, E1) \<and>
        indexOf 13 ''unknown'' exampleExpanded = Some (- 1, E1) \<and>
        indexOf 0 ''p'' E1 = Some (0, E1) \<and>
        indexOf 0 ''unknown'' E1 = Some (- 1, E1)"
    using g by (intro exI [of _ items] exI [of _ E1] conjI)
  with validForest_exampleExpanded o c f s show ?thesis by (intro conjI)
qed

section \<open>The constructor on a valid input\<close>

lemma map_set_fresh: "k \<notin> set (map fst ps) \<Longrightarrow> map_set k v ps = ps @ [(k, v)]"
  by (induction ps) auto

lemma set_add_fresh: "x \<notin> set xs \<Longrightarrow> set_add x xs = xs @ [x]"
  by (simp add: set_add_def)

lemma foldl_parent_upd:
  "foldl (\<lambda>m c. m(c \<mapsto> Some i)) m0 cs = (\<lambda>c. if c \<in> set cs then Some (Some i) else m0 c)"
  by (induction cs arbitrary: m0) (auto simp: fun_eq_iff)

text \<open>
  The loop over the entries, started from a state whose topology fields
  already describe the entries \<open>done\<close>.
\<close>

lemma foldl_buildEntry_topology:
  assumes "distinct (map fst (done @ data))"
    and "distinct (concat (map snd (inputChildren (done @ data))))"
  shows "childrenMap E = inputChildren done \<Longrightarrow>
         folderSet E = filter (\<lambda>i. map_of (inputChildren done) i \<noteq> Some [])
                         (map fst (inputChildren done)) \<Longrightarrow>
         leafIds E = filter (\<lambda>i. map_of (inputChildren done) i = Some [])
                       (map fst (inputChildren done)) \<Longrightarrow>
         parentMap E = (\<lambda>c. map_option Some
                          (map_of (concat (map (\<lambda>e. map (\<lambda>x. (x, fst e)) (snd e))
                                             (inputChildren done))) c)) \<Longrightarrow>
         childrenMap (foldl buildEntry E data) = inputChildren (done @ data) \<and>
         folderSet (foldl buildEntry E data) =
           filter (\<lambda>i. map_of (inputChildren (done @ data)) i \<noteq> Some [])
             (map fst (inputChildren (done @ data))) \<and>
         leafIds (foldl buildEntry E data) =
           filter (\<lambda>i. map_of (inputChildren (done @ data)) i = Some [])
             (map fst (inputChildren (done @ data))) \<and>
         parentMap (foldl buildEntry E data) =
           (\<lambda>c. map_option Some
                  (map_of (concat (map (\<lambda>e. map (\<lambda>x. (x, fst e)) (snd e))
                                     (inputChildren (done @ data)))) c))"
  using assms
proof (induction data arbitrary: E "done")
  case Nil
  then show ?case by simp
next
  case (Cons e data)
  define i where "i = fst e"
  define cs where "cs = (case children (snd e) of None \<Rightarrow> [] | Some c \<Rightarrow> c)"
  have ic: "inputChildren (done @ [e]) = inputChildren done @ [(i, cs)]"
    by (simp add: inputChildren_def i_def cs_def)
  have keys: "map fst (inputChildren xs) = map fst xs" for xs
    by (simp add: inputChildren_def comp_def)
  from Cons.prems(5) have fresh: "i \<notin> set (map fst (inputChildren done))"
    by (simp add: keys i_def)
  from fresh have none: "map_of (inputChildren done) i = None"
    by (simp add: map_of_eq_None_iff)
  have look: "map_of (inputChildren done @ [(i, cs)]) j =
                (if j = i then Some cs else map_of (inputChildren done) j)" for j
    using none by (cases "map_of (inputChildren done) j") (auto simp: map_add_def)
  have old: "j \<in> set (map fst (inputChildren done)) \<Longrightarrow> j \<noteq> i" for j
    using fresh by auto
  have c1: "childrenMap (buildEntry E e) = inputChildren (done @ [e])"
    using Cons.prems(1) fresh
    by (simp add: buildEntry_def Let_def ic map_set_fresh i_def [symmetric] cs_def [symmetric])
  have nf: "i \<notin> set (folderSet E)"
    using Cons.prems(2) fresh by auto
  have fq: "filter (\<lambda>j. P (map_of (inputChildren done @ [(i, cs)]) j))
               (map fst (inputChildren done)) =
            filter (\<lambda>j. P (map_of (inputChildren done) j)) (map fst (inputChildren done))"
    for P :: "string list option \<Rightarrow> bool"
    by (rule filter_cong) (use old in \<open>auto simp: look simp del: map_of_append\<close>)
  have l2: "folderSet (buildEntry E e) = (if cs = [] then folderSet E else folderSet E @ [i])"
    using nf
    by (simp add: buildEntry_def Let_def set_add_fresh i_def [symmetric] cs_def [symmetric])
  have r2: "filter (\<lambda>j. map_of (inputChildren (done @ [e])) j \<noteq> Some [])
                (map fst (inputChildren (done @ [e]))) =
            filter (\<lambda>j. map_of (inputChildren done) j \<noteq> Some [])
                (map fst (inputChildren done)) @ (if cs = [] then [] else [i])"
    using fq [of "\<lambda>v. v \<noteq> Some []"] by (simp add: ic look del: map_of_append)
  have c2: "folderSet (buildEntry E e) =
              filter (\<lambda>j. map_of (inputChildren (done @ [e])) j \<noteq> Some [])
                (map fst (inputChildren (done @ [e])))"
    unfolding l2 r2 using Cons.prems(2) by simp
  have l3: "leafIds (buildEntry E e) = (if cs = [] then leafIds E @ [i] else leafIds E)"
    by (simp add: buildEntry_def Let_def i_def [symmetric] cs_def [symmetric])
  have r3: "filter (\<lambda>j. map_of (inputChildren (done @ [e])) j = Some [])
                (map fst (inputChildren (done @ [e]))) =
            filter (\<lambda>j. map_of (inputChildren done) j = Some [])
                (map fst (inputChildren done)) @ (if cs = [] then [i] else [])"
    using fq [of "\<lambda>v. v = Some []"] by (simp add: ic look del: map_of_append)
  have c3: "leafIds (buildEntry E e) =
              filter (\<lambda>j. map_of (inputChildren (done @ [e])) j = Some [])
                (map fst (inputChildren (done @ [e])))"
    unfolding l3 r3 using Cons.prems(3) by simp
  from Cons.prems(6) have "distinct (concat (map snd (inputChildren done @ [(i, cs)])) @
                                      concat (map snd (inputChildren data)))"
    by (simp add: inputChildren_def i_def cs_def)
  then have dj: "set cs \<inter> set (concat (map snd (inputChildren done))) = {}"
    by auto
  have pk: "map fst (concat (map (\<lambda>e. map (\<lambda>x. (x, fst e)) (snd e)) (inputChildren done))) =
              concat (map snd (inputChildren done))"
    by (rule map_fst_parent_pairs)
  have l4: "parentMap (buildEntry E e) =
              (\<lambda>c. if c \<in> set cs then Some (Some i) else parentMap E c)"
    unfolding foldl_parent_upd [symmetric] by (simp add: buildEntry_def Let_def i_def cs_def)
  have c4: "parentMap (buildEntry E e) =
           (\<lambda>c. map_option Some
                  (map_of (concat (map (\<lambda>e. map (\<lambda>x. (x, fst e)) (snd e))
                                     (inputChildren (done @ [e])))) c))"
  proof
    fix c
    show "parentMap (buildEntry E e) c =
            map_option Some
                  (map_of (concat (map (\<lambda>e. map (\<lambda>x. (x, fst e)) (snd e))
                                     (inputChildren (done @ [e])))) c)"
    proof (cases "c \<in> set cs")
      case True
      with dj have "c \<notin> set (concat (map snd (inputChildren done)))" by auto
      then have "map_of (concat (map (\<lambda>e. map (\<lambda>x. (x, fst e)) (snd e)) (inputChildren done))) c
                   = None"
        unfolding map_of_eq_None_iff set_map [symmetric] pk by simp
      moreover from True have "map_of (map (\<lambda>x. (x, i)) cs) c = Some i"
        by (induction cs) auto
      ultimately show ?thesis
        using True
        by (simp add: l4 ic map_add_def)
    next
      case False
      then have "map_of (map (\<lambda>x. (x, i)) cs) c = None"
        by (simp add: map_of_eq_None_iff image_iff)
      with False show ?thesis
        using Cons.prems(4)
        by (simp add: l4 ic map_add_def split: option.splits)
    qed
  qed
  from Cons.prems(5,6) have d: "distinct (map fst ((done @ [e]) @ data))"
    "distinct (concat (map snd (inputChildren ((done @ [e]) @ data))))" by simp_all
  from Cons.IH [OF c1 c2 c3 c4 d] show ?case by simp
qed

lemma inputChildren_keys [simp]: "map fst (inputChildren data) = map fst data"
  by (simp add: inputChildren_def comp_def)

lemma inputChildren_length [simp]: "length (inputChildren data) = length data"
  by (simp add: inputChildren_def)

text \<open>
  The constructor establishes the obligation on the topology fields whenever
  the input is a valid forest rooted at the configured root.
\<close>

lemma newEngine_validForest:
  assumes "validInput data (case optRootId opts of None \<Rightarrow> ''__root__'' | Some r \<Rightarrow> r)"
  shows "validForest (newEngine nrm data opts)"
proof -
  define r where "r = (case optRootId opts of None \<Rightarrow> ''__root__'' | Some r \<Rightarrow> r)"
  define E0 where "E0 = emptyEngine\<lparr>
            rootId := r,
            minSearchChars := (case optMinSearchChars opts of
                                 None \<Rightarrow> 3
                               | Some n \<Rightarrow> if n \<noteq> 0 then n else 3) \<rparr>"
  define E1 where "E1 = foldl buildEntry E0 data"
  define E where "E = newEngine nrm data opts"
  define pairs where
    "pairs = concat (map (\<lambda>e. map (\<lambda>x. (x, fst e)) (snd e)) (inputChildren data))"
  from assms have d1: "distinct (map fst data)"
    and dp: "list_all (depthOk (Suc (length data))
                 (\<lambda>i. case map_of (inputChildren data) i of None \<Rightarrow> [] | Some cs \<Rightarrow> cs))
              (map fst data)"
    and d2: "distinct (concat (map snd (inputChildren data)))"
    and nr: "r \<notin> set (concat (map snd (inputChildren data)))"
    by (simp_all add: validInput_def r_def)
  have "childrenMap E1 = inputChildren ([] @ data) \<and>
         folderSet E1 =
           filter (\<lambda>i. map_of (inputChildren ([] @ data)) i \<noteq> Some [])
             (map fst (inputChildren ([] @ data))) \<and>
         leafIds E1 =
           filter (\<lambda>i. map_of (inputChildren ([] @ data)) i = Some [])
             (map fst (inputChildren ([] @ data))) \<and>
         parentMap E1 =
           (\<lambda>c. map_option Some
                  (map_of (concat (map (\<lambda>e. map (\<lambda>x. (x, fst e)) (snd e))
                                     (inputChildren ([] @ data)))) c))"
    unfolding E1_def
    by (rule foldl_buildEntry_topology)
       (use d1 d2 in \<open>simp_all add: E0_def emptyEngine_def inputChildren_def fun_eq_iff\<close>)
  then have cm: "childrenMap E1 = inputChildren data"
    and fs: "folderSet E1 = filter (\<lambda>i. map_of (inputChildren data) i \<noteq> Some []) (map fst data)"
    and lf: "leafIds E1 = filter (\<lambda>i. map_of (inputChildren data) i = Some []) (map fst data)"
    and pm: "parentMap E1 = (\<lambda>c. map_option Some (map_of pairs c))"
    by (simp_all add: pairs_def)
  have r1: "rootId E1 = r"
    by (simp add: E1_def E0_def)
  have "map fst pairs = concat (map snd (inputChildren data))"
    unfolding pairs_def by (rule map_fst_parent_pairs)
  with nr have "r \<notin> fst ` set pairs"
    unfolding set_map [symmetric] by simp
  then have rn: "map_of pairs r = None"
    by (simp add: map_of_eq_None_iff)
  have tE: "childrenMap E = childrenMap E1" "folderSet E = folderSet E1"
    "leafIds E = leafIds E1" "rootId E = r"
    "parentMap E = (parentMap E1)(r \<mapsto> None)"
    using r1 rn
    by (simp_all add: E_def newEngine_def Let_def E1_def [symmetric] E0_def [symmetric]
          r_def [symmetric] pm split: option.splits)
  have co: "childrenOf E = (\<lambda>i. case map_of (inputChildren data) i of None \<Rightarrow> [] | Some cs \<Rightarrow> cs)"
    by (simp add: childrenOf_def fun_eq_iff tE cm)
  have key: "i \<in> set (map fst data) \<Longrightarrow>
               (map_of (inputChildren data) i = Some []) = (childrenOf E i = [])" for i
  proof -
    assume "i \<in> set (map fst data)"
    then have "i \<in> fst ` set (inputChildren data)"
      unfolding set_map [symmetric] by simp
    then have "map_of (inputChildren data) i \<noteq> None"
      by (simp add: map_of_eq_None_iff)
    then show ?thesis by (cases "map_of (inputChildren data) i") (simp_all add: co)
  qed
  have f1: "filter (\<lambda>i. map_of (inputChildren data) i \<noteq> Some []) (map fst data) =
            filter (\<lambda>i. childrenOf E i \<noteq> []) (map fst data)"
    by (rule filter_cong) (simp_all add: key)
  have f2: "filter (\<lambda>i. map_of (inputChildren data) i = Some []) (map fst data) =
            filter (\<lambda>i. childrenOf E i = []) (map fst data)"
    by (rule filter_cong) (simp_all add: key)
  have pf: "parentFromChildren E c = map_of pairs c" for c
    by (simp add: parentFromChildren_def tE cm pairs_def)
  have p: "parentMap E c =
            (case parentFromChildren E c of
               Some p \<Rightarrow> Some (Some p)
             | None \<Rightarrow> if c = rootId E then Some None else None)" for c
    using rn by (cases "map_of pairs c") (auto simp: pf tE pm)
  have "validForest E"
    unfolding validForest_def
    apply (intro conjI allI)
          apply (simp add: tE cm d1)
         apply (simp add: tE cm co dp)
        apply (simp add: tE cm d2)
       apply (use nr in \<open>simp add: tE cm\<close>)
      apply (rule p)
     apply (simp add: tE cm fs f1)
    apply (simp add: tE cm lf f2)
    done
  then show ?thesis by (simp add: E_def)
qed

section \<open>The state invariant\<close>

lemma leavesUnder_cong:
  assumes "childrenMap E' = childrenMap E"
  shows "leavesUnder E' = leavesUnder E"
proof -
  from assms have "childrenOf E' = childrenOf E" and "childRel E' = childRel E"
    by (rule childrenOf_cong, rule childRel_cong)
  then show ?thesis by (simp add: leavesUnder_def fun_eq_iff)
qed

lemma resolvedLeaf_cong:
  assumes "childrenMap E' = childrenMap E" and "parentMap E' = parentMap E"
    and "assignments E' = assignments E"
  shows "resolvedLeaf E' = resolvedLeaf E"
proof
  fix d
  from assms(1) have "fuelBound E' = fuelBound E" by (simp add: fuelBound_def)
  moreover
  have "findNearestAssignment (fuelBound E) E' (Some d) =
        findNearestAssignment (fuelBound E) E (Some d)"
    by (rule findNearestAssignment_cong [OF assms(3) assms(2)])
  ultimately show "resolvedLeaf E' d = resolvedLeaf E d"
    by (simp only: resolvedLeaf_def)
qed

lemma summaryState_cong:
  assumes "childrenMap E' = childrenMap E" and "parentMap E' = parentMap E"
    and "assignments E' = assignments E"
  shows "summaryState E' = summaryState E"
proof -
  from assms have "resolvedLeaf E' = resolvedLeaf E" by (rule resolvedLeaf_cong)
  moreover from assms(1) have "leavesUnder E' = leavesUnder E" by (rule leavesUnder_cong)
  ultimately show ?thesis by (simp add: summaryState_def fun_eq_iff)
qed

lemma tableOk_cong:
  assumes "childrenMap E' = childrenMap E" and "parentMap E' = parentMap E"
    and "assignments E' = assignments E"
  shows "tableOk E' c = tableOk E c"
proof -
  from assms have "summaryState E' = summaryState E" by (rule summaryState_cong)
  then show ?thesis by (simp add: tableOk_def)
qed

lemma tableOk_empty [simp]: "tableOk E Map.empty"
  by (simp add: tableOk_def)

text \<open>
  In a valid forest, the memo table holds the specified tri-states exactly
  when it holds only values that the resolver computes from an empty table.
\<close>

lemma tableOk_cacheCoherent:
  assumes "validForest E" and "tableOk E (stateCache E)"
  shows "cacheCoherent E"
  unfolding cacheCoherent_def
proof (intro allI impI)
  fix i st
  assume s: "stateCache E i = Some st"
  define E0 where "E0 = E\<lparr> stateCache := Map.empty \<rparr>"
  have "validForest E0 = validForest E"
    by (rule validForest_topology) (simp_all add: E0_def)
  with assms(1) have v: "validForest E0" by simp
  have t: "tableOk E0 (stateCache E0)" by (simp add: E0_def)
  have f: "fuelBound E0 \<le> fuelBound E" by (simp add: E0_def)
  from getStateBase_summary [OF v t f] obtain c' where
    g: "getStateBase (fuelBound E) E0 i = Some (summaryState E0 i, E0\<lparr> stateCache := c' \<rparr>)"
    by blast
  have "summaryState E0 = summaryState E"
    by (rule summaryState_cong) (simp_all add: E0_def)
  moreover from assms(2) s have "st = summaryState E i" by (simp add: tableOk_def)
  ultimately show "\<exists>E'. getStateBase (fuelBound E) (E\<lparr> stateCache := Map.empty \<rparr>) i = Some (st, E')"
    using g by (simp add: E0_def)
qed

lemma engineOk_validForest: "engineOk E \<Longrightarrow> validForest E"
  by (simp add: engineOk_def)

lemma engineOk_overlayOk: "engineOk E \<Longrightarrow> overlayOk E"
  by (simp add: engineOk_def)

lemma engineOk_cacheCoherent: "engineOk E \<Longrightarrow> cacheCoherent E"
  by (simp add: engineOk_def tableOk_cacheCoherent)

lemma engineOk_allCheckedCacheOk: "engineOk E \<Longrightarrow> allCheckedCacheOk E"
  by (simp add: engineOk_def)

lemma engineOk_flatCacheOk: "engineOk E \<Longrightarrow> flatCacheOk E"
  by (simp add: engineOk_def flatCacheOk_def)

lemma engineOk_distinct_expanded: "engineOk E \<Longrightarrow> distinct (expanded E)"
  by (simp add: engineOk_def)

lemma foldl_buildEntry_other [simp]:
  "stateCache (foldl buildEntry E data) = stateCache E"
  "visibleChildrenMap (foldl buildEntry E data) = visibleChildrenMap E"
  "allCheckedCacheVersion (foldl buildEntry E data) = allCheckedCacheVersion E"
  "selectionVersion (foldl buildEntry E data) = selectionVersion E"
  "flatVisibleItems (foldl buildEntry E data) = flatVisibleItems E"
  "indexById (foldl buildEntry E data) = indexById E"
  "expanded (foldl buildEntry E data) = expanded E"
  by (induction data arbitrary: E) (simp_all add: buildEntry_def Let_def)

text \<open>The constructor establishes the invariant on a valid input.\<close>

lemma newEngine_engineOk:
  assumes "validInput data (case optRootId opts of None \<Rightarrow> ''__root__'' | Some r \<Rightarrow> r)"
  shows "engineOk (newEngine nrm data opts)"
proof -
  have "stateCache (newEngine nrm data opts) = Map.empty"
    and "visibleChildrenMap (newEngine nrm data opts) = Map.empty"
    and "allCheckedCacheVersion (newEngine nrm data opts) = - 1"
    and "selectionVersion (newEngine nrm data opts) = 0"
    and "flatVisibleItems (newEngine nrm data opts) = []"
    and "indexById (newEngine nrm data opts) = Map.empty"
    and "distinct (expanded (newEngine nrm data opts))"
    by (simp_all add: newEngine_def Let_def emptyEngine_def split: option.splits)
  with newEngine_validForest [OF assms, of nrm] show ?thesis
    by (simp add: engineOk_def overlayOk_def allCheckedCacheOk_def)
qed

text \<open>
  What a step has to leave alone for the invariant to survive: the topology,
  and either the assignments together with the memo table or an emptied
  memo table; the cached result of \<open>getAllChecked\<close> is either
  invalidated or kept with its version; the cached list and its index are
  kept.
\<close>

lemma engineOk_frame:
  assumes ok: "engineOk E"
    and topo: "sameTopology E' E"
    and over: "overlayOk E'"
    and memo: "stateCache E' = Map.empty \<or>
               (stateCache E' = stateCache E \<and> assignments E' = assignments E)"
    and allc: "allCheckedCacheVersion E' = - 1 \<or>
               (allCheckedCacheVersion E' = allCheckedCacheVersion E \<and>
                selectionVersion E' = selectionVersion E \<and>
                allCheckedCache E' = allCheckedCache E)"
    and selv: "selectionVersion E \<le> selectionVersion E'"
    and flat: "flatVisibleItems E' = flatVisibleItems E" "indexById E' = indexById E"
    and dist: "distinct (expanded E')"
  shows "engineOk E'"
proof -
  from ok have v: "validForest E" and t: "tableOk E (stateCache E)"
    and a: "allCheckedCacheOk E" and s: "0 \<le> selectionVersion E"
    and r: "rowsOk [] Map.empty (flatVisibleItems E) (indexById E)"
    by (simp_all add: engineOk_def)
  from topo v have v': "validForest E'" by (simp add: sameTopology_validForest)
  from topo have tp: "childrenMap E' = childrenMap E" "parentMap E' = parentMap E"
    "folderSet E' = folderSet E" by (simp_all add: sameTopology_def)
  have t': "tableOk E' (stateCache E')"
  proof (cases "stateCache E' = Map.empty")
    case True
    then show ?thesis by simp
  next
    case False
    with memo have m: "stateCache E' = stateCache E" "assignments E' = assignments E" by simp_all
    from tableOk_cong [OF tp(1,2) m(2)] t m(1) show ?thesis by simp
  qed
  from selv s have s': "0 \<le> selectionVersion E'" by simp
  have a': "allCheckedCacheOk E'"
  proof (cases "allCheckedCacheVersion E' = - 1")
    case True
    with s' show ?thesis by (simp add: allCheckedCacheOk_def)
  next
    case False
    with allc a tp(3) show ?thesis by (simp add: allCheckedCacheOk_def)
  qed
  from r flat have r': "rowsOk [] Map.empty (flatVisibleItems E') (indexById E')" by simp
  from v' over t' a' r' dist s' show ?thesis by (simp add: engineOk_def)
qed

lemma engineOk_toggleExpanded:
  assumes ok: "engineOk E"
  shows "engineOk (toggleExpanded i E)"
proof (rule engineOk_frame [OF ok])
  from ok have d: "distinct (expanded E)" and o: "overlayOk E" by (simp_all add: engineOk_def)
  show "sameTopology (toggleExpanded i E) E"
    by (cases "i = rootId E")
       (simp_all add: toggleExpanded_def Let_def sameTopology_def bumpNoRecompute_def
          callObservers_def)
  have "overlayOk (toggleExpanded i E) = overlayOk E"
    by (rule overlayOk_cong)
       (simp_all add: toggleExpanded_def Let_def bumpNoRecompute_def callObservers_def)
  with o show "overlayOk (toggleExpanded i E)" by simp
  show "distinct (expanded (toggleExpanded i E))"
    using d by (simp add: toggleExpanded_def Let_def distinct_removeAll)
qed (simp_all add: toggleExpanded_def Let_def bumpNoRecompute_def callObservers_def)

lemma engineOk_collapseAll:
  assumes ok: "engineOk E"
  shows "engineOk (collapseAll E)"
proof (rule engineOk_frame [OF ok])
  from ok have o: "overlayOk E" by (simp add: engineOk_def)
  have "overlayOk (collapseAll E) = overlayOk E"
    by (rule overlayOk_cong) (simp_all add: collapseAll_def bumpNoRecompute_def callObservers_def)
  with o show "overlayOk (collapseAll E)" by simp
qed (simp_all add: collapseAll_def sameTopology_def bumpNoRecompute_def callObservers_def)

lemma engineOk_expandAll:
  assumes ok: "engineOk E"
  shows "engineOk (expandAll E)"
proof (rule engineOk_frame [OF ok])
  from ok have o: "overlayOk E" and d: "distinct (expanded E)" by (simp_all add: engineOk_def)
  have "overlayOk (expandAll E) = overlayOk E"
    by (rule overlayOk_cong) (simp_all add: expandAll_def bumpNoRecompute_def callObservers_def)
  with o show "overlayOk (expandAll E)" by simp
  from d show "distinct (expanded (expandAll E))" by (simp add: expandAll_def)
qed (simp_all add: expandAll_def sameTopology_def bumpNoRecompute_def callObservers_def)

lemma engineOk_setExpanded:
  assumes ok: "engineOk E"
  shows "engineOk (setExpanded ids E)"
proof (rule engineOk_frame [OF ok])
  from ok have o: "overlayOk E" and d: "distinct (expanded E)" by (simp_all add: engineOk_def)
  have "overlayOk (setExpanded ids E) = overlayOk E"
    by (rule overlayOk_cong)
       (simp_all add: setExpanded_def Let_def bumpNoRecompute_def callObservers_def)
  with o show "overlayOk (setExpanded ids E)" by simp
  from d show "distinct (expanded (setExpanded ids E))" by (simp add: setExpanded_def Let_def)
qed (simp_all add: setExpanded_def Let_def sameTopology_def bumpNoRecompute_def callObservers_def)

lemma engineOk_subscribe:
  assumes ok: "engineOk E"
  shows "engineOk (subscribe cb E)"
proof (rule engineOk_frame [OF ok])
  from ok show "overlayOk (subscribe cb E)" and "distinct (expanded (subscribe cb E))"
    by (simp_all add: engineOk_def overlayOk_def subscribe_def childrenOf_def)
qed (simp_all add: subscribe_def sameTopology_def)

text \<open>
  A change of the search query replaces the overlay and the expanded set and
  leaves the selection, its caches and the flattened list alone.
\<close>

lemma setSearchQuery_frame:
  assumes "setSearchQuery nrm fuel query E = Some E'"
  shows "assignments E' = assignments E \<and> stateCache E' = stateCache E \<and>
         allCheckedCache E' = allCheckedCache E \<and>
         allCheckedCacheVersion E' = allCheckedCacheVersion E \<and>
         selectionVersion E' = selectionVersion E \<and>
         flatVisibleItems E' = flatVisibleItems E \<and> indexById E' = indexById E \<and>
         (distinct (expanded E) \<longrightarrow> distinct (expanded E'))"
  using assms
  by (auto simp: setSearchQuery_def Let_def callObservers_def split: if_splits option.splits)

lemma engineOk_setSearchQuery:
  assumes "engineOk E" and "setSearchQuery nrm fuel query E = Some E'"
  shows "engineOk E'"
proof (rule engineOk_frame [OF assms(1)])
  from setSearchQuery_topology [OF assms(2)] show "sameTopology E' E"
    by (simp add: sameTopology_def)
  from assms(1) have "overlayOk E" by (simp add: engineOk_def)
  with assms(2) show "overlayOk E'" by (rule setSearchQuery_overlayOk)
  from assms(1) have "distinct (expanded E)" by (simp add: engineOk_def)
  with setSearchQuery_frame [OF assms(2)] show "distinct (expanded E')" by simp
qed (use setSearchQuery_frame [OF assms(2)] in simp_all)

lemma engineOk_setMinSearchChars:
  assumes "engineOk E" and "setMinSearchChars nrm fuel n E = Some E'"
  shows "engineOk E'"
proof (cases "minSearchChars E = (if n < 1 then 1 else n)")
  case True
  with assms show ?thesis by (simp add: setMinSearchChars_def Let_def)
next
  case False
  define E1 where "E1 = E\<lparr> minSearchChars := (if n < 1 then 1 else n) \<rparr>"
  from False assms(2) have s: "setSearchQuery nrm fuel (searchQuery E) E1 = Some E'"
    by (simp add: setMinSearchChars_def Let_def E1_def)
  have "engineOk E1"
  proof (rule engineOk_frame [OF assms(1)])
    from assms(1) show "overlayOk E1" and "distinct (expanded E1)"
      by (simp_all add: engineOk_def overlayOk_def E1_def childrenOf_def)
  qed (simp_all add: E1_def sameTopology_def)
  then show ?thesis using s by (rule engineOk_setSearchQuery)
qed

text \<open>Checking and unchecking replace the assignments and empty the memo tables.\<close>

lemma toggle_shape:
  assumes "toggle fuel i checked E = Some E'"
  shows "\<exists>a. E' = notify False (E\<lparr> assignments := a \<rparr>)"
proof (cases "searchActive E")
  case False
  with assms obtain E2 where
    c: "clearSubtreeAssignments fuel (E\<lparr> assignments := (assignments E)(i \<mapsto> checked) \<rparr>) i = Some E2"
    and e: "E' = notify False E2"
    by (auto simp: toggle_def toggleFull_def split: option.splits)
  from clear_effect(1) [OF c] obtain a where "E2 = E\<lparr> assignments := a \<rparr>" by auto
  with e show ?thesis by blast
next
  case True
  show ?thesis
  proof (cases "i \<in> set (folderSet E)")
    case False
    with True assms show ?thesis
      by (auto simp: toggle_def toggleVisibleOnly_def)
  next
    case f: True
    with True assms obtain E2 where
      c: "forEachVisibleLeafUnder fuel E [i] checked = Some E2" and e: "E' = notify False E2"
      by (auto simp: toggle_def toggleVisibleOnly_def split: option.splits)
    from forEachVisibleLeafUnder_effect [OF c] obtain a where "E2 = E\<lparr> assignments := a \<rparr>"
      by auto
    with e show ?thesis by blast
  qed
qed

lemma engineOk_notify_assign:
  assumes ok: "engineOk E"
  shows "engineOk (notify silent (E\<lparr> assignments := a \<rparr>))"
proof (rule engineOk_frame [OF ok])
  from ok show "overlayOk (notify silent (E\<lparr> assignments := a \<rparr>))"
    and "distinct (expanded (notify silent (E\<lparr> assignments := a \<rparr>)))"
    by (simp_all add: engineOk_def overlayOk_def notify_def callObservers_def childrenOf_def)
qed (simp_all add: notify_def callObservers_def sameTopology_def)

lemma engineOk_toggle:
  assumes "engineOk E" and "toggle fuel i checked E = Some E'"
  shows "engineOk E'"
proof -
  from toggle_shape [OF assms(2)] obtain a where "E' = notify False (E\<lparr> assignments := a \<rparr>)"
    by blast
  with engineOk_notify_assign [OF assms(1)] show ?thesis by simp
qed

text \<open>
  The reading methods write only to the caches; the invariant survives when
  what they write is right.
\<close>

lemma engineOk_caches:
  assumes ok: "engineOk E"
    and t: "tableOk E c"
    and a: "v = selectionVersion E \<longrightarrow> (\<forall>i \<in> set ac. i \<notin> set (folderSet E))"
    and r: "rowsOk [] Map.empty rows idx"
  shows "engineOk (E\<lparr> stateCache := c, stateCacheFiltered := cf, allCheckedCache := ac,
                       allCheckedCacheVersion := v, indexById := idx,
                       flatVisibleItems := rows, flatCacheVersion := k \<rparr>)"
proof -
  define E' where "E' = E\<lparr> stateCache := c, stateCacheFiltered := cf, allCheckedCache := ac,
                       allCheckedCacheVersion := v, indexById := idx,
                       flatVisibleItems := rows, flatCacheVersion := k \<rparr>"
  have "validForest E' = validForest E"
    by (rule validForest_topology) (simp_all add: E'_def)
  with ok have 1: "validForest E'" by (simp add: engineOk_def)
  have "overlayOk E' = overlayOk E"
    by (rule overlayOk_cong) (simp_all add: E'_def)
  with ok have 2: "overlayOk E'" by (simp add: engineOk_def)
  have "tableOk E' c = tableOk E c"
    by (rule tableOk_cong) (simp_all add: E'_def)
  with t have 3: "tableOk E' (stateCache E')" by (simp add: E'_def)
  from a have 4: "allCheckedCacheOk E'" by (simp add: allCheckedCacheOk_def E'_def)
  from r have 5: "rowsOk [] Map.empty (flatVisibleItems E') (indexById E')"
    by (simp add: E'_def)
  from ok have 6: "distinct (expanded E')" "0 \<le> selectionVersion E'"
    by (simp_all add: engineOk_def E'_def)
  from 1 2 3 4 5 6 show ?thesis unfolding E'_def [symmetric] by (simp add: engineOk_def)
qed

lemma engineOk_getAllChecked:
  assumes ok: "engineOk E" and f: "fuelBound E \<le> fuel"
    and g: "getAllChecked fuel E = Some (res, E')"
  shows "engineOk E'"
proof (cases "allCheckedCacheVersion E = selectionVersion E")
  case True
  with g ok show ?thesis by (simp add: getAllChecked_def)
next
  case False
  from ok have v: "validForest E" and t: "tableOk E (stateCache E)"
    and r: "rowsOk [] Map.empty (flatVisibleItems E) (indexById E)"
    by (simp_all add: engineOk_def)
  from collectChecked_correct [OF v f t, of "map fst (childrenMap E)" "[]"] obtain c' where
    c: "collectChecked fuel E (map fst (childrenMap E)) [] =
          Some (filter (\<lambda>i. i \<notin> set (folderSet E) \<and> summaryState E i = Checked)
                  (map fst (childrenMap E)), E\<lparr> stateCache := c' \<rparr>)"
    and t': "tableOk E c'" by auto
  define ac where "ac = filter (\<lambda>i. i \<notin> set (folderSet E) \<and> summaryState E i = Checked)
                  (map fst (childrenMap E))"
  from False g c have "E' = E\<lparr> stateCache := c', allCheckedCache := ac,
                                allCheckedCacheVersion := selectionVersion E \<rparr>"
    by (auto simp: getAllChecked_def ac_def)
  then have e: "E' = E\<lparr> stateCache := c', stateCacheFiltered := stateCacheFiltered E,
                         allCheckedCache := ac, allCheckedCacheVersion := selectionVersion E,
                         indexById := indexById E, flatVisibleItems := flatVisibleItems E,
                         flatCacheVersion := flatCacheVersion E \<rparr>"
    by simp
  have "selectionVersion E = selectionVersion E \<longrightarrow> (\<forall>i \<in> set ac. i \<notin> set (folderSet E))"
    by (simp add: ac_def)
  from engineOk_caches [OF ok t' this r] show ?thesis unfolding e .
qed

lemma engineOk_setChecked:
  assumes ok: "engineOk E" and f: "fuelBound E \<le> fuel"
    and s: "setChecked fuel ids silent E = Some E'"
  shows "engineOk E'"
proof -
  from s obtain ac E1 where g: "getAllChecked fuel E = Some (ac, E1)"
    by (auto simp: setChecked_def Let_def split: option.splits)
  from engineOk_getAllChecked [OF ok f g] have ok1: "engineOk E1" .
  from s g obtain a where "E' = E1 \<or> E' = notify silent (E1\<lparr> assignments := a \<rparr>)"
    by (auto simp: setChecked_def Let_def split: if_splits)
  with ok1 engineOk_notify_assign [OF ok1] show ?thesis by auto
qed

text \<open>The resolver of the filtered view writes only to its own memo table.\<close>

lemma getStateFiltered_frame:
  "getStateFiltered n E i = Some (st, E') \<Longrightarrow> \<exists>c. E' = E\<lparr> stateCacheFiltered := c \<rparr>"
  "countCheckedFiltered n E cs k = Some (res, E') \<Longrightarrow> \<exists>c. E' = E\<lparr> stateCacheFiltered := c \<rparr>"
proof (induction n E i and n E cs k arbitrary: st E' and res E'
       rule: getStateFiltered_countCheckedFiltered.induct)
  case (1 E i)
  then show ?case by simp
next
  case (2 n E i)
  show ?case
  proof (cases "stateCacheFiltered E i")
    case (Some s)
    with "2.prems" have "E' = E" by simp
    then have "E' = E\<lparr> stateCacheFiltered := stateCacheFiltered E \<rparr>" by simp
    then show ?thesis by blast
  next
    case None
    show ?thesis
    proof (cases "length (viewChildrenOf E i) = 0")
      case True
      with None "2.prems" show ?thesis by (auto split: option.splits)
    next
      case False
      with None "2.prems" obtain r E1 where
        c: "countCheckedFiltered n E (viewChildrenOf E i) 0 = Some (r, E1)"
        by (cases "countCheckedFiltered n E (viewChildrenOf E i) 0") auto
      with None False "2.prems" have e: "E' = E1\<lparr> stateCacheFiltered := (stateCacheFiltered E1)(i \<mapsto> st) \<rparr>"
        by (cases r) auto
      from "2.IH" [OF None False c] obtain c1 where "E1 = E\<lparr> stateCacheFiltered := c1 \<rparr>" by blast
      with e have "E' = E\<lparr> stateCacheFiltered := c1(i \<mapsto> st) \<rparr>" by simp
      then show ?thesis by blast
    qed
  qed
next
  case (3 n E k)
  then have "E' = E\<lparr> stateCacheFiltered := stateCacheFiltered E \<rparr>" by simp
  then show ?case by blast
next
  case (4 n E c cs k)
  from "4.prems" obtain s E1 where g: "getStateFiltered n E c = Some (s, E1)"
    by (auto split: option.splits)
  from "4.IH"(1) [OF g] obtain c1 where E1: "E1 = E\<lparr> stateCacheFiltered := c1 \<rparr>" by blast
  show ?case
  proof (cases "s = Indeterminate")
    case True
    with g "4.prems" have "E' = E1" by simp
    with E1 show ?thesis by blast
  next
    case False
    with g "4.prems" have
      "countCheckedFiltered n E1 cs (if s = Checked then k + 1 else k) = Some (res, E')" by simp
    from "4.IH"(2) [OF g refl False this] E1 show ?thesis by auto
  qed
qed

lemma engineOk_getViewState:
  assumes ok: "engineOk E" and f: "fuelBound E \<le> fuel"
    and g: "getViewState fuel i E = Some (st, E')"
  shows "engineOk E'"
proof -
  from ok have v: "validForest E" and t: "tableOk E (stateCache E)"
    and r: "rowsOk [] Map.empty (flatVisibleItems E) (indexById E)"
    and a: "allCheckedCacheOk E"
    by (simp_all add: engineOk_def)
  from a have a': "allCheckedCacheVersion E = selectionVersion E \<longrightarrow>
                   (\<forall>i \<in> set (allCheckedCache E). i \<notin> set (folderSet E))"
    by (simp add: allCheckedCacheOk_def)
  have "\<exists>c cf. tableOk E c \<and> E' = E\<lparr> stateCache := c, stateCacheFiltered := cf \<rparr>"
  proof (cases "searchActive E")
    case True
    with g have "getStateFiltered fuel E i = Some (st, E')" by (simp add: getViewState_def)
    from getStateFiltered_frame(1) [OF this] obtain cf where
      "E' = E\<lparr> stateCacheFiltered := cf \<rparr>" by blast
    then have "E' = E\<lparr> stateCache := stateCache E, stateCacheFiltered := cf \<rparr>" by simp
    with t show ?thesis by blast
  next
    case False
    with g have b: "getStateBase fuel E i = Some (st, E')" by (simp add: getViewState_def)
    from getStateBase_summary [OF v t f, of i] obtain c' where
      "getStateBase fuel E i = Some (summaryState E i, E\<lparr> stateCache := c' \<rparr>)"
      and t': "tableOk E c'" by blast
    with b have "E' = E\<lparr> stateCache := c' \<rparr>" by simp
    then have "E' = E\<lparr> stateCache := c', stateCacheFiltered := stateCacheFiltered E \<rparr>"
      by simp
    with t' show ?thesis by blast
  qed
  then obtain c cf where tc: "tableOk E c"
    and "E' = E\<lparr> stateCache := c, stateCacheFiltered := cf \<rparr>" by blast
  then have e: "E' = E\<lparr> stateCache := c, stateCacheFiltered := cf,
                         allCheckedCache := allCheckedCache E,
                         allCheckedCacheVersion := allCheckedCacheVersion E,
                         indexById := indexById E, flatVisibleItems := flatVisibleItems E,
                         flatCacheVersion := flatCacheVersion E \<rparr>"
    by simp
  from engineOk_caches [OF ok tc a' r] show ?thesis unfolding e .
qed

lemma engineOk_getVisibleItems:
  assumes ok: "engineOk E" and f: "fuelBound E \<le> fuel"
    and g: "getVisibleItems fuel E = Some (items, E')"
  shows "engineOk E'"
proof (cases "flatCacheVersion E = cacheKey E")
  case True
  with g ok show ?thesis by (simp add: getVisibleItems_def)
next
  case False
  from ok have v: "validForest E" and o: "overlayOk E" and t: "tableOk E (stateCache E)"
    and a: "allCheckedCacheOk E"
    by (simp_all add: engineOk_def)
  from a have a': "allCheckedCacheVersion E = selectionVersion E \<longrightarrow>
                   (\<forall>i \<in> set (allCheckedCache E). i \<notin> set (folderSet E))"
    by (simp add: allCheckedCacheOk_def)
  from visit_root_rows [OF v o f] obtain rows idx where
    vr: "visit fuel E (rootId E) (- 1) ([], Map.empty) = Some (rows, idx)"
    and r: "rowsOk [] Map.empty rows idx" by blast
  from False g vr have "E' = E\<lparr> indexById := idx, flatVisibleItems := rows,
                                     flatCacheVersion := cacheKey E \<rparr>"
    by (auto simp: getVisibleItems_def)
  then have e: "E' = E\<lparr> stateCache := stateCache E, stateCacheFiltered := stateCacheFiltered E,
                         allCheckedCache := allCheckedCache E,
                         allCheckedCacheVersion := allCheckedCacheVersion E,
                         indexById := idx, flatVisibleItems := rows,
                         flatCacheVersion := cacheKey E \<rparr>"
    by simp
  from engineOk_caches [OF ok t a' r] show ?thesis unfolding e .
qed

lemma engineOk_indexOf:
  assumes ok: "engineOk E" and f: "fuelBound E \<le> fuel"
    and g: "indexOf fuel i E = Some (k, E')"
  shows "engineOk E'"
proof -
  from g obtain items where "getVisibleItems fuel E = Some (items, E')"
    by (auto simp: indexOf_def split: option.splits)
  with ok f show ?thesis by (rule engineOk_getVisibleItems)
qed

section \<open>Every reachable state satisfies the invariant\<close>

lemma applyOperation_childrenMap:
  assumes "applyOperation nrm fuel op E = Some E'"
  shows "childrenMap E' = childrenMap E"
proof (cases op)
  case (ToggleExpanded i)
  with assms show ?thesis
    by (auto simp: toggleExpanded_def Let_def bumpNoRecompute_def callObservers_def)
next
  case CollapseAll
  with assms show ?thesis by (auto simp: collapseAll_def)
next
  case ExpandAll
  with assms show ?thesis by (auto simp: expandAll_def)
next
  case (SetExpanded ids)
  with assms show ?thesis by (auto simp: setExpanded_def Let_def)
next
  case (SetSearchQuery q)
  with assms have "setSearchQuery nrm fuel q E = Some E'" by simp
  from setSearchQuery_topology [OF this] show ?thesis by simp
next
  case (SetMinSearchChars n)
  show ?thesis
  proof (cases "minSearchChars E = (if n < 1 then 1 else n)")
    case True
    with assms SetMinSearchChars show ?thesis by (simp add: setMinSearchChars_def Let_def)
  next
    case False
    with assms SetMinSearchChars have
      "setSearchQuery nrm fuel (searchQuery E) (E\<lparr> minSearchChars := (if n < 1 then 1 else n) \<rparr>)
         = Some E'"
      by (simp add: setMinSearchChars_def Let_def)
    from setSearchQuery_topology [OF this] show ?thesis by simp
  qed
next
  case (Toggle i checked)
  with assms have "toggle fuel i checked E = Some E'" by simp
  from toggle_shape [OF this] show ?thesis by (auto simp: notify_def callObservers_def)
next
  case (SetChecked ids silent)
  with assms have s: "setChecked fuel ids silent E = Some E'" by simp
  then obtain ac E1 where g: "getAllChecked fuel E = Some (ac, E1)"
    by (auto simp: setChecked_def Let_def split: option.splits)
  from getAllChecked_frame [OF g] have "childrenMap E1 = childrenMap E" by auto
  moreover from s g obtain a where "E' = E1 \<or> E' = notify silent (E1\<lparr> assignments := a \<rparr>)"
    by (auto simp: setChecked_def Let_def split: if_splits)
  ultimately show ?thesis by (auto simp: notify_def callObservers_def)
next
  case (Subscribe cb)
  with assms show ?thesis by (auto simp: subscribe_def)
qed

lemma engineOk_applyOperation:
  assumes "engineOk E" and "fuelBound E \<le> fuel" and "applyOperation nrm fuel op E = Some E'"
  shows "engineOk E'"
proof (cases op)
  case (ToggleExpanded i)
  with assms(3) engineOk_toggleExpanded [OF assms(1), of i] show ?thesis by simp
next
  case CollapseAll
  with assms(3) engineOk_collapseAll [OF assms(1)] show ?thesis by simp
next
  case ExpandAll
  with assms(3) engineOk_expandAll [OF assms(1)] show ?thesis by simp
next
  case (SetExpanded ids)
  with assms(3) engineOk_setExpanded [OF assms(1), of ids] show ?thesis by simp
next
  case (SetSearchQuery q)
  with assms(3) have "setSearchQuery nrm fuel q E = Some E'" by simp
  with assms(1) show ?thesis by (rule engineOk_setSearchQuery)
next
  case (SetMinSearchChars n)
  with assms(3) have "setMinSearchChars nrm fuel n E = Some E'" by simp
  with assms(1) show ?thesis by (rule engineOk_setMinSearchChars)
next
  case (Toggle i checked)
  with assms(3) have "toggle fuel i checked E = Some E'" by simp
  with assms(1) show ?thesis by (rule engineOk_toggle)
next
  case (SetChecked ids silent)
  with assms(3) have "setChecked fuel ids silent E = Some E'" by simp
  with assms(1,2) show ?thesis by (rule engineOk_setChecked)
next
  case (Subscribe cb)
  with assms(3) engineOk_subscribe [OF assms(1), of cb] show ?thesis by simp
qed

lemma applyStep_childrenMap:
  assumes "applyStep nrm fuel s E = Some E'"
  shows "childrenMap E' = childrenMap E"
proof (cases s)
  case (Op op)
  with assms show ?thesis by (simp add: applyOperation_childrenMap)
next
  case (GetViewState i)
  with assms obtain st where g: "getViewState fuel i E = Some (st, E')" by auto
  show ?thesis
  proof (cases "searchActive E")
    case True
    with g getStateFiltered_frame(1) [of fuel E i st E'] show ?thesis
      by (auto simp: getViewState_def)
  next
    case False
    with g getStateBase_frame(1) [of fuel E i st E'] show ?thesis
      by (auto simp: getViewState_def)
  qed
next
  case GetAllChecked
  with assms obtain r where "getAllChecked fuel E = Some (r, E')" by auto
  from getAllChecked_frame [OF this] show ?thesis by auto
next
  case GetVisibleItems
  with assms show ?thesis
    by (auto simp: getVisibleItems_def split: if_splits option.splits)
next
  case (IndexOf i)
  with assms show ?thesis
    by (auto simp: indexOf_def getVisibleItems_def split: if_splits option.splits)
qed

lemma engineOk_applyStep:
  assumes "engineOk E" and "fuelBound E \<le> fuel" and "applyStep nrm fuel s E = Some E'"
  shows "engineOk E'"
proof (cases s)
  case (Op op)
  with assms(3) have "applyOperation nrm fuel op E = Some E'" by simp
  with assms(1,2) show ?thesis by (rule engineOk_applyOperation)
next
  case (GetViewState i)
  with assms(3) obtain st where "getViewState fuel i E = Some (st, E')" by auto
  with assms(1,2) show ?thesis by (rule engineOk_getViewState)
next
  case GetAllChecked
  with assms(3) obtain r where "getAllChecked fuel E = Some (r, E')" by auto
  with assms(1,2) show ?thesis by (rule engineOk_getAllChecked)
next
  case GetVisibleItems
  with assms(3) obtain r where "getVisibleItems fuel E = Some (r, E')" by auto
  with assms(1,2) show ?thesis by (rule engineOk_getVisibleItems)
next
  case (IndexOf i)
  with assms(3) obtain k where "indexOf fuel i E = Some (k, E')" by auto
  with assms(1,2) show ?thesis by (rule engineOk_indexOf)
qed

lemma engineOk_runSteps:
  "engineOk E \<Longrightarrow> fuelBound E \<le> fuel \<Longrightarrow> runSteps nrm fuel ss E = Some E' \<Longrightarrow>
     engineOk E' \<and> fuelBound E' = fuelBound E"
proof (induction ss arbitrary: E)
  case Nil
  then show ?case by simp
next
  case (Cons s ss)
  from Cons.prems(3) obtain E1 where a: "applyStep nrm fuel s E = Some E1"
    and r: "runSteps nrm fuel ss E1 = Some E'"
    by (auto split: option.splits)
  from engineOk_applyStep [OF Cons.prems(1,2) a] have ok: "engineOk E1" .
  from applyStep_childrenMap [OF a] have fb: "fuelBound E1 = fuelBound E"
    by (simp add: fuelBound_def)
  with Cons.prems(2) have "fuelBound E1 \<le> fuel" by simp
  from Cons.IH [OF ok this r] fb show ?case by simp
qed

text \<open>
  After the constructor on a valid input and any sequence of steps run with
  enough fuel, the state satisfies the invariant, and with it the
  hypotheses on the state that the theorems of this development make.
\<close>

lemma reachable_engineOk:
  assumes "validInput data (case optRootId opts of None \<Rightarrow> ''__root__'' | Some r \<Rightarrow> r)"
    and "fuelBound (newEngine nrm data opts) \<le> fuel"
    and "runSteps nrm fuel ss (newEngine nrm data opts) = Some E"
  shows "validForest E \<and> overlayOk E \<and> cacheCoherent E \<and> allCheckedCacheOk E \<and>
         flatCacheOk E \<and> distinct (expanded E) \<and> fuelBound E \<le> fuel"
proof -
  from newEngine_engineOk [OF assms(1)] have "engineOk (newEngine nrm data opts)" .
  from engineOk_runSteps [OF this assms(2,3)] assms(2)
  have "engineOk E" and "fuelBound E \<le> fuel" by simp_all
  then show ?thesis
    by (simp add: engineOk_validForest engineOk_overlayOk engineOk_cacheCoherent
          engineOk_allCheckedCacheOk engineOk_flatCacheOk engineOk_distinct_expanded)
qed

text \<open>
  A run on the example tree: check the leaf \<open>a\<close>, read the checked leaves,
  search for \<open>alp\<close>, flatten the view, and ask for the row of \<open>a\<close>.
\<close>

lemma validInput_exampleData: "validInput exampleData ''__root__''"
  by (simp add: validInput_def exampleData_def inputChildren_def)

lemma runSteps_example:
  "\<exists>E. runSteps (\<lambda>s. s) 13
          [Op (Toggle ''a'' True), GetAllChecked, Op (SetSearchQuery ''alp''), GetVisibleItems,
           IndexOf ''a''] exampleEngine = Some E \<and>
        assignments E ''a'' = Some True \<and> allCheckedCache E = [''a''] \<and>
        visibleSet E = [''a'', ''p'', ''__root__''] \<and>
        map item_id (flatVisibleItems E) = [''p'', ''a''] \<and> indexById E ''a'' = Some 1"
  by (simp add: toggle_def toggleFull_def exampleEngine_eq childrenOf_def eval_nat_numeral
        getAllChecked_def notify_def callObservers_def leafState_def folderState_def
        setSearchQuery_def Let_def str_includes_def set_add_def restrictChildren_def
        sublist_code prefix_code getVisibleItems_def indexOf_def cacheKey_def
        viewChildrenOf_def visibleChildrenOf_def)

lemma runSteps_example_invariant:
  "\<exists>E. runSteps (\<lambda>s. s) 13
          [Op (Toggle ''a'' True), GetAllChecked, Op (SetSearchQuery ''alp''), GetVisibleItems,
           IndexOf ''a''] exampleEngine = Some E \<and>
        validForest E \<and> overlayOk E \<and> cacheCoherent E \<and> allCheckedCacheOk E \<and>
        flatCacheOk E \<and> distinct (expanded E) \<and> fuelBound E \<le> 13"
proof -
  from runSteps_example obtain E where
    r: "runSteps (\<lambda>s. s) 13
          [Op (Toggle ''a'' True), GetAllChecked, Op (SetSearchQuery ''alp''), GetVisibleItems,
           IndexOf ''a''] (newEngine (\<lambda>s. s) exampleData noOptions) = Some E"
    unfolding exampleEngine_def by blast
  have v: "validInput exampleData
             (case optRootId noOptions of None \<Rightarrow> ''__root__'' | Some r \<Rightarrow> r)"
    by (simp add: noOptions_def validInput_exampleData)
  have f: "fuelBound (newEngine (\<lambda>s. s) exampleData noOptions) \<le> 13"
    unfolding exampleEngine_def [symmetric] by (simp add: fuelBound_def exampleEngine_eq)
  from reachable_engineOk [OF v f r] r show ?thesis
    unfolding exampleEngine_def by blast
qed

end
